theory Spec2Isabelle
  imports Main "HOL-Library.Word"
begin

unbundle bit_operations_syntax

section \<open>Python values and exceptions\<close>

text \<open>
  An exception raised by the program or by a library call is a value of \<open>pyerr\<close>; a
  computation that may raise returns \<open>pyerr + 'a\<close>, with \<open>Inl\<close> for the raise.
\<close>

datatype pyerr =
    FileNotFoundError | IsADirectoryError | NotADirectoryError | FileExistsError
  | ValueError | TypeError | InvalidSize | InvalidImageDataError

text \<open>
  The value the command line hands to \<open>Sanitizer\<close> as \<open>hash_sample_size\<close>: \<open>None\<close>, an
  integer, or (for an empty option string, which \<open>cli.sanitize\<close> does not parse) a string.
\<close>

datatype pyval = PyNone | PyInt int | PyStr string

type_synonym byte = "8 word"

section \<open>hashlib.sha1\<close>

text \<open>
  \<open>hashlib\<close> is not part of the repository. Its SHA-1 is written out here after
  FIPS 180-4, on 32-bit words kept as integers below \<open>2 ^ 32\<close> with the wrap-around
  explicit. A hash object is the sequence of bytes fed to it so far: \<open>update\<close> appends,
  \<open>hexdigest\<close> hashes the whole sequence.
\<close>

definition add32 :: "int \<Rightarrow> int \<Rightarrow> int" where
  "add32 a b = (a + b) mod 4294967296"

definition rotl :: "nat \<Rightarrow> int \<Rightarrow> int" where
  "rotl n w = (w * 2 ^ n) mod 4294967296 + w div 2 ^ (32 - n)"

definition be32 :: "byte list \<Rightarrow> int" where
  "be32 bs = foldl (\<lambda>acc b. acc * 256 + uint b) 0 bs"

definition be64_bytes :: "nat \<Rightarrow> byte list" where
  "be64_bytes n = map (\<lambda>i. of_nat (n div 256 ^ i)) [7, 6, 5, 4, 3, 2, 1, 0]"

definition sha1_pad :: "byte list \<Rightarrow> byte list" where
  "sha1_pad m = m @ 0x80 # replicate ((119 - length m mod 64) mod 64) 0
                  @ be64_bytes (8 * length m)"

fun words :: "byte list \<Rightarrow> int list" where
  "words (a # b # c # d # bs) = be32 [a, b, c, d] # words bs"
| "words _ = []"

text \<open>The message schedule, newest word first: \<open>r ! 2\<close> is \<open>W(t-3)\<close>, \<open>r ! 15\<close> is \<open>W(t-16)\<close>.\<close>

fun expand :: "nat \<Rightarrow> int list \<Rightarrow> int list" where
  "expand 0 r = r"
| "expand (Suc n) r = expand n (rotl 1 (r ! 2 XOR r ! 7 XOR r ! 13 XOR r ! 15) # r)"

definition schedule :: "byte list \<Rightarrow> int list" where
  "schedule block = rev (expand 64 (rev (words block)))"

definition ch :: "int \<Rightarrow> int \<Rightarrow> int \<Rightarrow> int" where
  "ch b c d = (b AND c) OR ((b XOR 4294967295) AND d)"

definition parity :: "int \<Rightarrow> int \<Rightarrow> int \<Rightarrow> int" where
  "parity b c d = b XOR c XOR d"

definition maj :: "int \<Rightarrow> int \<Rightarrow> int \<Rightarrow> int" where
  "maj b c d = (b AND c) OR (b AND d) OR (c AND d)"

type_synonym sha_state = "int \<times> int \<times> int \<times> int \<times> int"

fun round_step ::
  "(int \<Rightarrow> int \<Rightarrow> int \<Rightarrow> int) \<Rightarrow> int \<Rightarrow> sha_state \<Rightarrow> int \<Rightarrow> sha_state" where
  "round_step f k (a, b, c, d, e) w =
     (add32 (add32 (add32 (add32 (rotl 5 a) (f b c d)) e) k) w, a, rotl 30 b, c, d)"

fun compress :: "sha_state \<Rightarrow> byte list \<Rightarrow> sha_state" where
  "compress (h0, h1, h2, h3, h4) block =
     (case foldl (round_step parity 0xCA62C1D6)
            (foldl (round_step maj 0x8F1BBCDC)
              (foldl (round_step parity 0x6ED9EBA1)
                (foldl (round_step ch 0x5A827999) (h0, h1, h2, h3, h4)
                  (take 20 (schedule block)))
                (take 20 (drop 20 (schedule block))))
              (take 20 (drop 40 (schedule block))))
            (drop 60 (schedule block)) of
        (a, b, c, d, e) \<Rightarrow> (add32 h0 a, add32 h1 b, add32 h2 c, add32 h3 d, add32 h4 e))"

fun blocks :: "nat \<Rightarrow> byte list \<Rightarrow> byte list list" where
  "blocks 0 bs = []"
| "blocks (Suc n) bs = take 64 bs # blocks n (drop 64 bs)"

definition hex_digit :: "int \<Rightarrow> char" where
  "hex_digit n = ''0123456789abcdef'' ! nat (n mod 16)"

definition hex32 :: "int \<Rightarrow> string" where
  "hex32 w = map (\<lambda>i. hex_digit (w div 16 ^ i)) [7, 6, 5, 4, 3, 2, 1, 0]"

fun hex_state :: "sha_state \<Rightarrow> string" where
  "hex_state (a, b, c, d, e) = hex32 a @ hex32 b @ hex32 c @ hex32 d @ hex32 e"

definition sha1_hex :: "byte list \<Rightarrow> string" where
  "sha1_hex m = hex_state (foldl compress
       (0x67452301, 0xEFCDAB89, 0x98BADCFE, 0x10325476, 0xC3D2E1F0)
       (blocks (length (sha1_pad m) div 64) (sha1_pad m)))"

type_synonym hashobj = "byte list"

definition hashlib_sha1 :: hashobj where
  "hashlib_sha1 = []"

definition update :: "hashobj \<Rightarrow> byte list \<Rightarrow> hashobj" where
  "update h chunk = h @ chunk"

definition hexdigest :: "hashobj \<Rightarrow> string" where
  "hexdigest h = sha1_hex h"

section \<open>Strings and paths\<close>

text \<open>
  A file name is a string of 8-bit characters, read as the code points 0 to 255.
  \<open>str.lower\<close> on these maps \<open>A-Z\<close> and the upper-case letters of the range
  \<open>0xC0-0xDE\<close> (all but the multiplication sign \<open>0xD7\<close>) to their lower-case letter and
  leaves every other character alone.
\<close>

definition upper_chars :: string where
  "upper_chars = ''ABCDEFGHIJKLMNOPQRSTUVWXYZ'' @
     [CHR 0xC0, CHR 0xC1, CHR 0xC2, CHR 0xC3, CHR 0xC4, CHR 0xC5, CHR 0xC6, CHR 0xC7,
      CHR 0xC8, CHR 0xC9, CHR 0xCA, CHR 0xCB, CHR 0xCC, CHR 0xCD, CHR 0xCE, CHR 0xCF,
      CHR 0xD0, CHR 0xD1, CHR 0xD2, CHR 0xD3, CHR 0xD4, CHR 0xD5, CHR 0xD6,
      CHR 0xD8, CHR 0xD9, CHR 0xDA, CHR 0xDB, CHR 0xDC, CHR 0xDD, CHR 0xDE]"

definition lower_chars :: string where
  "lower_chars = ''abcdefghijklmnopqrstuvwxyz'' @
     [CHR 0xE0, CHR 0xE1, CHR 0xE2, CHR 0xE3, CHR 0xE4, CHR 0xE5, CHR 0xE6, CHR 0xE7,
      CHR 0xE8, CHR 0xE9, CHR 0xEA, CHR 0xEB, CHR 0xEC, CHR 0xED, CHR 0xEE, CHR 0xEF,
      CHR 0xF0, CHR 0xF1, CHR 0xF2, CHR 0xF3, CHR 0xF4, CHR 0xF5, CHR 0xF6,
      CHR 0xF8, CHR 0xF9, CHR 0xFA, CHR 0xFB, CHR 0xFC, CHR 0xFD, CHR 0xFE]"

definition lower_char :: "char \<Rightarrow> char" where
  "lower_char c = (case map_of (zip upper_chars lower_chars) c of Some d \<Rightarrow> d | None \<Rightarrow> c)"

definition lower :: "string \<Rightarrow> string" where
  "lower s = map lower_char s"

text \<open>\<open>str.rfind\<close> for a single character: its highest index, or \<open>-1\<close>.\<close>

definition rfind :: "string \<Rightarrow> char \<Rightarrow> int" where
  "rfind s c =
     (if c \<in> set s then int (length s) - 1 - int (length (takeWhile (\<lambda>x. x \<noteq> c) (rev s)))
      else - 1)"

text \<open>
  A path is the list of its components below a root; \<open>[]\<close> is the root itself.
  \<open>name\<close>, \<open>suffix\<close> and \<open>stem\<close> are pathlib's properties of the final component.
\<close>

type_synonym path = "string list"

definition name :: "path \<Rightarrow> string" where
  "name p = (if p = [] then [] else last p)"

definition suffix :: "path \<Rightarrow> string" where
  "suffix p =
     (let i = rfind (name p) CHR ''.''
      in if 0 < i \<and> i < int (length (name p)) - 1 then drop (nat i) (name p) else [])"

definition stem :: "path \<Rightarrow> string" where
  "stem p =
     (let i = rfind (name p) CHR ''.''
      in if 0 < i \<and> i < int (length (name p)) - 1 then take (nat i) (name p) else name p)"

section \<open>The fingerprint pattern\<close>

text \<open>
  \<open>hash_pattern = re.compile(r"(?:^\d+_)?([a-f0-9]{12})", re.IGNORECASE)\<close> and
  \<open>hash_pattern.search(stem)\<close>, returning \<open>group(1)\<close> of the match.
  \<^item> \<open>hex12 s\<close> is the group \<open>([a-f0-9]{12})\<close> matched at the front of \<open>s\<close>.
  \<^item> \<open>prefixed s\<close> is the whole pattern with the optional group taken, at position 0:
    the greedy \<open>\d+\<close> takes every leading digit, and giving digits back cannot help,
    since the character after a shorter run is a digit and not the underscore.
  \<^item> \<open>scan s\<close> tries the pattern without the optional group at position 0, 1, 2, ...
    (at a position after 0 the anchor \<open>^\<close> fails, so the optional group is skipped).
  \<open>search\<close> returns the leftmost match, and at one position the alternative that takes
  the optional group first.
\<close>

definition is_digit :: "char \<Rightarrow> bool" where
  "is_digit c = (c \<in> set ''0123456789'')"

definition is_hex :: "char \<Rightarrow> bool" where
  "is_hex c = (c \<in> set ''0123456789abcdefABCDEF'')"

definition hex12 :: "string \<Rightarrow> string option" where
  "hex12 s = (if 12 \<le> length s \<and> list_all is_hex (take 12 s) then Some (take 12 s) else None)"

definition prefixed :: "string \<Rightarrow> string option" where
  "prefixed s =
     (let r = dropWhile is_digit s
      in if takeWhile is_digit s \<noteq> [] \<and> r \<noteq> [] \<and> hd r = CHR ''_'' then hex12 (tl r)
         else None)"

fun scan :: "string \<Rightarrow> string option" where
  "scan [] = None"
| "scan (c # s) = (case hex12 (c # s) of Some g \<Rightarrow> Some g | None \<Rightarrow> scan s)"

definition hash_search :: "string \<Rightarrow> string option" where
  "hash_search s = (case prefixed s of Some g \<Rightarrow> Some g | None \<Rightarrow> scan s)"

text \<open>
  The shape the specification describes, for comparison: the whole stem is twelve hex
  characters, optionally preceded by digits and an underscore, and nothing else.
\<close>

definition exact_shape :: "string \<Rightarrow> string option" where
  "exact_shape s =
     (if length s = 12 \<and> list_all is_hex s then Some s
      else (let r = dropWhile is_digit s
            in if takeWhile is_digit s \<noteq> [] \<and> r \<noteq> [] \<and> hd r = CHR ''_''
                  \<and> length (tl r) = 12 \<and> list_all is_hex (tl r)
               then Some (tl r) else None))"

section \<open>Directory trees\<close>

text \<open>
  A directory tree is an association list from paths below its root to nodes, read
  through \<open>map_of\<close> (the first entry of a path counts). The root is a directory. The
  source tree and the destination tree are two separate trees: the source is only read,
  the destination is the state the run changes.
\<close>

datatype node = File "byte list" | Dir

type_synonym fs = "(path \<times> node) list"

definition lookup :: "fs \<Rightarrow> path \<Rightarrow> node option" where
  "lookup t p = (if p = [] then Some Dir else map_of t p)"

definition is_dir :: "fs \<Rightarrow> path \<Rightarrow> bool" where
  "is_dir t p = (lookup t p = Some Dir)"

definition is_file :: "fs \<Rightarrow> path \<Rightarrow> bool" where
  "is_file t p = (case lookup t p of Some (File _) \<Rightarrow> True | _ \<Rightarrow> False)"

text \<open>\<open>root.rglob("*")\<close>: every entry below the root, of any kind, the root excluded.\<close>

definition rglob :: "fs \<Rightarrow> path list" where
  "rglob t = filter (\<lambda>p. p \<noteq> []) (remdups (map fst t))"

text \<open>The non-empty prefixes of a path, shortest first, the path itself last.\<close>

fun inits :: "path \<Rightarrow> path list" where
  "inits [] = []"
| "inits (x # xs) = [x] # map ((#) x) (inits xs)"

text \<open>
  \<open>Path.mkdir(parents=True, exist_ok=True)\<close>: fails when the path or one of its
  ancestors is a regular file, and otherwise creates every directory that is missing.
\<close>

definition mkdir_parents :: "fs \<Rightarrow> path \<Rightarrow> pyerr + fs" where
  "mkdir_parents t p =
     (if list_ex (is_file t) (butlast (inits p)) then Inl NotADirectoryError
      else if is_file t p then Inl FileExistsError
      else Inr (map (\<lambda>q. (q, Dir)) (filter (\<lambda>q. lookup t q = None) (inits p)) @ t))"

text \<open>
  \<open>shutil.copy2(src, dst)\<close>, from the source tree into the destination tree: when \<open>dst\<close>
  is a directory the file goes into it under the base name of \<open>src\<close>; the target's
  parent must be a directory and the target itself must not be one.
\<close>

definition copy2 :: "fs \<Rightarrow> path \<Rightarrow> fs \<Rightarrow> path \<Rightarrow> pyerr + fs" where
  "copy2 s src t dst =
     (let tgt = (if is_dir t dst then dst @ [name src] else dst)
      in case lookup s src of
           None \<Rightarrow> Inl FileNotFoundError
         | Some Dir \<Rightarrow> Inl IsADirectoryError
         | Some (File data) \<Rightarrow>
             if is_dir t tgt then Inl IsADirectoryError
             else if is_file t (butlast tgt) then Inl NotADirectoryError
             else if \<not> is_dir t (butlast tgt) then Inl FileNotFoundError
             else Inr ((tgt, File data) # t))"

text \<open>
  \<open>BufferedReader.read(size)\<close> on a regular file whose unread bytes are \<open>f\<close>: the bytes
  read and the bytes left. A size of \<open>-1\<close> reads to the end, a smaller one is refused.
\<close>

definition file_read :: "byte list \<Rightarrow> int \<Rightarrow> pyerr + byte list \<times> byte list" where
  "file_read f n =
     (if n < - 1 then Inl ValueError
      else if n = - 1 then Inr (f, [])
      else Inr (take (nat n) f, drop (nat n) f))"

section \<open>Image and Report\<close>

record image =
  path :: path
  sha1 :: string

definition filename :: "image \<Rightarrow> string" where
  "filename im = name (path im)"

definition extension :: "image \<Rightarrow> string" where
  "extension im = lower (suffix (path im))"

definition short_sha :: "image \<Rightarrow> string" where
  "short_sha im = take 12 (sha1 im)"

record report =
  ignored :: int
  copied :: int
  failed :: int

definition Report :: report where
  "Report = \<lparr>ignored = 0, copied = 0, failed = 0\<rparr>"

section \<open>piexif\<close>

text \<open>
  \<open>piexif\<close> is not part of the repository: its three entry points are parameters. Of the
  dictionary \<open>piexif.load\<close> returns, the program reads the orientation tag of the \<open>0th\<close>
  block and the \<open>ICC\<close> entry; \<open>other_tags\<close> and \<open>thumbnail\<close> stand for the rest.
  \<open>insert_bytes exif_bytes data\<close> is \<open>piexif.insert\<close> on a file whose content is \<open>data\<close>:
  the new content of the file.
\<close>

record exif =
  orientation :: "int option"
  icc :: "byte list option"
  other_tags :: "(string \<times> int \<times> byte list) list"
  thumbnail :: "byte list option"

record piexif =
  load :: "byte list \<Rightarrow> pyerr + exif"
  dump :: "exif \<Rightarrow> pyerr + byte list"
  insert_bytes :: "byte list \<Rightarrow> byte list \<Rightarrow> pyerr + byte list"

section \<open>Sanitizer\<close>

text \<open>
  The \<open>Sanitizer\<close> object: \<open>source\<close> and \<open>dest\<close> are the trees found at the two
  directories, \<open>dest\<close> and \<open>report\<close> are what a run changes. The worker pool is modelled
  by its sequential schedule: the files are processed one after the other in the order
  of the list, which is what \<open>executor.map\<close> does with one worker.
\<close>

record sanitizer =
  source :: fs
  dest :: fs
  worker :: int
  report :: report
  hash_sample_size :: pyval

definition Sanitizer :: "fs \<Rightarrow> fs \<Rightarrow> int \<Rightarrow> pyval \<Rightarrow> sanitizer" where
  "Sanitizer src dst w n =
     \<lparr>source = src, dest = dst, worker = w, report = Report, hash_sample_size = n\<rparr>"

definition inc_ignored :: "sanitizer \<Rightarrow> sanitizer" where
  "inc_ignored self = self\<lparr>report := (report self)\<lparr>ignored := ignored (report self) + 1\<rparr>\<rparr>"

definition inc_copied :: "sanitizer \<Rightarrow> sanitizer" where
  "inc_copied self = self\<lparr>report := (report self)\<lparr>copied := copied (report self) + 1\<rparr>\<rparr>"

definition inc_failed :: "sanitizer \<Rightarrow> sanitizer" where
  "inc_failed self = self\<lparr>report := (report self)\<lparr>failed := failed (report self) + 1\<rparr>\<rparr>"

subsection \<open>\<open>_sha1_file\<close>\<close>

text \<open>\<open>buffer_size if remaining is None else min(buffer_size, remaining)\<close>\<close>

definition chunk_size :: "int \<Rightarrow> pyval \<Rightarrow> pyerr + int" where
  "chunk_size buffer_size remaining =
     (case remaining of
        PyNone \<Rightarrow> Inr buffer_size
      | PyInt r \<Rightarrow> Inr (min buffer_size r)
      | PyStr _ \<Rightarrow> Inl TypeError)"

text \<open>The \<open>while True\<close> loop: \<open>h\<close> is the hash object, \<open>f\<close> the unread bytes of the file.\<close>

function sha1_loop :: "int \<Rightarrow> pyval \<Rightarrow> hashobj \<Rightarrow> byte list \<Rightarrow> pyerr + hashobj" where
  "sha1_loop buffer_size remaining h f =
     (case chunk_size buffer_size remaining of
        Inl e \<Rightarrow> Inl e
      | Inr n \<Rightarrow>
          (case file_read f n of
             Inl e \<Rightarrow> Inl e
           | Inr (chunk, f') \<Rightarrow>
               if chunk = [] then Inr h
               else (case remaining of
                       PyInt r \<Rightarrow>
                         if r - int (length chunk) \<le> 0 then Inr (update h chunk)
                         else sha1_loop buffer_size (PyInt (r - int (length chunk)))
                                (update h chunk) f'
                     | _ \<Rightarrow> sha1_loop buffer_size remaining (update h chunk) f')))"
  by pat_completeness auto
termination
  by (relation "measure (\<lambda>(b, r, h, f). length f)")
     (auto simp: file_read_def split: if_splits)

declare sha1_loop.simps [simp del]

definition sha1_file :: "fs \<Rightarrow> path \<Rightarrow> int \<Rightarrow> pyval \<Rightarrow> pyerr + string" where
  "sha1_file t filepath buffer_size sample_size =
     (case lookup t filepath of
        None \<Rightarrow> Inl FileNotFoundError
      | Some Dir \<Rightarrow> Inl IsADirectoryError
      | Some (File data) \<Rightarrow>
          (case sha1_loop buffer_size sample_size hashlib_sha1 data of
             Inl e \<Rightarrow> Inl e
           | Inr h \<Rightarrow> Inr (hexdigest h)))"

subsection \<open>\<open>_clean_exif\<close>\<close>

definition new_exif :: "exif \<Rightarrow> exif" where
  "new_exif exif_dict =
     \<lparr>orientation = (case orientation exif_dict of
                       Some v \<Rightarrow> if v \<noteq> 0 then Some v else None | None \<Rightarrow> None),
      icc = (case icc exif_dict of
               Some b \<Rightarrow> if b \<noteq> [] then Some b else None | None \<Rightarrow> None),
      other_tags = [], thumbnail = None\<rparr>"

text \<open>The body of the \<open>try\<close>: the error raised, if any, and the destination tree left.\<close>

definition clean_exif_try :: "piexif \<Rightarrow> path \<Rightarrow> fs \<Rightarrow> (pyerr + unit) \<times> fs" where
  "clean_exif_try px p t =
     (case lookup t p of
        None \<Rightarrow> (Inl FileNotFoundError, t)
      | Some Dir \<Rightarrow> (Inl IsADirectoryError, t)
      | Some (File data) \<Rightarrow>
          (case load px data of
             Inl e \<Rightarrow> (Inl e, t)
           | Inr exif_dict \<Rightarrow>
               (case dump px (new_exif exif_dict) of
                  Inl e \<Rightarrow> (Inl e, t)
                | Inr exif_bytes \<Rightarrow>
                    (case insert_bytes px exif_bytes data of
                       Inl e \<Rightarrow> (Inl e, t)
                     | Inr data' \<Rightarrow> (Inr (), (p, File data') # t)))))"

definition clean_exif :: "piexif \<Rightarrow> path \<Rightarrow> sanitizer \<Rightarrow> sanitizer" where
  "clean_exif px p self =
     (case clean_exif_try px p (dest self) of
        (Inl e, t) \<Rightarrow> inc_failed (self\<lparr>dest := t\<rparr>)
      | (Inr u, t) \<Rightarrow> self\<lparr>dest := t\<rparr>)"

subsection \<open>\<open>_copy_image\<close>\<close>

text \<open>
  A source path is relative to the source root, so \<open>image.path.parent.relative_to(source)\<close>
  is the path without its last component; for the root itself it raises.
\<close>

definition copy_image :: "image \<Rightarrow> sanitizer \<Rightarrow> (pyerr + path) \<times> sanitizer" where
  "copy_image im self =
     (if path im = [] then (Inl ValueError, self)
      else (case mkdir_parents (dest self) (butlast (path im)) of
              Inl e \<Rightarrow> (Inl e, self)
            | Inr t \<Rightarrow>
                (case copy2 (source self) (path im) t
                        (butlast (path im) @ [short_sha im @ extension im]) of
                   Inl e \<Rightarrow> (Inl e, self\<lparr>dest := t\<rparr>)
                 | Inr t' \<Rightarrow>
                     (Inr (butlast (path im) @ [short_sha im @ extension im]),
                      self\<lparr>dest := t'\<rparr>))))"

subsection \<open>\<open>_process_file\<close>\<close>

text \<open>The body of the \<open>try\<close>, then the function with its \<open>except Exception\<close>.\<close>

definition process_file_try ::
  "piexif \<Rightarrow> path \<Rightarrow> string set \<Rightarrow> sanitizer \<Rightarrow> (pyerr + unit) \<times> sanitizer" where
  "process_file_try px src_path existing self =
     (case sha1_file (source self) src_path 65536 (hash_sample_size self) of
        Inl e \<Rightarrow> (Inl e, self)
      | Inr digest \<Rightarrow>
          if short_sha \<lparr>path = src_path, sha1 = digest\<rparr> \<in> existing
          then (Inr (), inc_ignored self)
          else (case copy_image \<lparr>path = src_path, sha1 = digest\<rparr> self of
                  (Inl e, self') \<Rightarrow> (Inl e, self')
                | (Inr dst_path, self') \<Rightarrow>
                    (Inr (), inc_copied (clean_exif px dst_path self'))))"

definition process_file :: "piexif \<Rightarrow> path \<Rightarrow> string set \<Rightarrow> sanitizer \<Rightarrow> sanitizer" where
  "process_file px src_path existing self =
     (case process_file_try px src_path existing self of
        (Inl e, self') \<Rightarrow> inc_failed self'
      | (Inr u, self') \<Rightarrow> self')"

subsection \<open>\<open>run\<close>\<close>

definition files :: "fs \<Rightarrow> path list" where
  "files t = filter (\<lambda>f. lower (suffix f) \<in> {''.jpg'', ''.jpeg''}) (rglob t)"

definition existing_hashes :: "fs \<Rightarrow> string set" where
  "existing_hashes t =
     set (List.map_filter
            (\<lambda>f. if is_file t f then map_option lower (hash_search (stem f)) else None)
            (rglob t))"

definition process_all :: "piexif \<Rightarrow> string set \<Rightarrow> path list \<Rightarrow> sanitizer \<Rightarrow> sanitizer" where
  "process_all px existing fs self = foldl (\<lambda>s f. process_file px f existing s) self fs"

definition run :: "piexif \<Rightarrow> sanitizer \<Rightarrow> sanitizer" where
  "run px self = process_all px (existing_hashes (dest self)) (files (source self)) self"

section \<open>The command line\<close>

text \<open>
  \<open>humanfriendly.parse_size\<close> is a parameter. \<open>if hash_sample_size:\<close> is the truth value
  of an optional string: false for \<open>None\<close> and for the empty string.
\<close>

definition cli_hash_sample_size ::
  "(string \<Rightarrow> pyerr + int) \<Rightarrow> string option \<Rightarrow> pyerr + pyval" where
  "cli_hash_sample_size parse_size raw =
     (case raw of
        None \<Rightarrow> Inr PyNone
      | Some s \<Rightarrow>
          if s \<noteq> [] then (case parse_size s of Inl e \<Rightarrow> Inl e | Inr n \<Rightarrow> Inr (PyInt n))
          else Inr (PyStr s))"

definition sanitize ::
  "(string \<Rightarrow> pyerr + int) \<Rightarrow> piexif \<Rightarrow> fs \<Rightarrow> fs \<Rightarrow> int \<Rightarrow> string option
     \<Rightarrow> pyerr + sanitizer" where
  "sanitize parse_size px src dst w raw =
     (case cli_hash_sample_size parse_size raw of
        Inl e \<Rightarrow> Inl e
      | Inr n \<Rightarrow> Inr (run px (Sanitizer src dst w n)))"

section \<open>Well-formed trees and two stand-ins for piexif\<close>

text \<open>
  An association list is a directory tree when every entry lies in directories: each
  proper prefix of each of its paths is a directory.
\<close>

definition wf_fs :: "fs \<Rightarrow> bool" where
  "wf_fs t = list_all (\<lambda>p. list_all (is_dir t) (butlast (inits p))) (map fst t)"

text \<open>
  Two instances of the library interface, for the concrete runs below. The first refuses
  every file, which is what \<open>piexif.load\<close> does with bytes that are neither JPEG nor
  TIFF. The second accepts a file that starts with the JPEG marker \<open>FF D8\<close>, finds no tag
  in it and puts the new (empty) metadata after the marker; it refuses every other file.
\<close>

definition piexif_refusing :: piexif where
  "piexif_refusing =
     \<lparr>load = (\<lambda>data. Inl InvalidImageDataError),
      dump = (\<lambda>e. Inr []),
      insert_bytes = (\<lambda>exif_bytes data. Inr (exif_bytes @ data))\<rparr>"

definition piexif_plain :: piexif where
  "piexif_plain =
     \<lparr>load = (\<lambda>data. if take 2 data = [0xFF, 0xD8]
                     then Inr \<lparr>orientation = None, icc = None, other_tags = [],
                               thumbnail = None\<rparr>
                     else Inl InvalidImageDataError),
      dump = (\<lambda>e. Inr []),
      insert_bytes = (\<lambda>exif_bytes data. Inr (take 2 data @ exif_bytes @ drop 2 data))\<rparr>"

section \<open>Predicates of the claims\<close>

text \<open>
  \<open>leaf_pattern\<close> is the pattern \<open>^[0-9a-f]{12}\.(jpg|jpeg)$\<close> of the destination names.
  \<open>known self existing f\<close> says that the digest of \<open>f\<close> can be computed and that its first
  twelve characters are in the index \<open>existing\<close>.
\<close>

definition is_lower_hex :: "char \<Rightarrow> bool" where
  "is_lower_hex c = (c \<in> set ''0123456789abcdef'')"

definition leaf_pattern :: "string \<Rightarrow> bool" where
  "leaf_pattern l =
     (12 \<le> length l \<and> list_all is_lower_hex (take 12 l) \<and> drop 12 l \<in> {''.jpg'', ''.jpeg''})"

definition known :: "sanitizer \<Rightarrow> string set \<Rightarrow> path \<Rightarrow> bool" where
  "known self existing f =
     (case sha1_file (source self) f 65536 (hash_sample_size self) of
        Inl e \<Rightarrow> False
      | Inr d \<Rightarrow> take 12 d \<in> existing)"

section \<open>The digest\<close>

lemma expand_numeral:
  "expand (numeral n) r =
     expand (pred_numeral n) (rotl 1 (r ! 2 XOR r ! 7 XOR r ! 13 XOR r ! 15) # r)"
  by (simp add: numeral_eq_Suc)

lemma blocks_numeral:
  "blocks (numeral n) bs = take 64 bs # blocks (pred_numeral n) (drop 64 bs)"
  by (simp add: numeral_eq_Suc)

lemma replicate_numeral: "replicate (numeral n) x = x # replicate (pred_numeral n) x"
  by (simp add: numeral_eq_Suc)

lemmas sha1_eval =
  sha1_hex_def sha1_pad_def be64_bytes_def blocks_numeral schedule_def be32_def
  expand_numeral rotl_def replicate_numeral add32_def ch_def parity_def maj_def hex32_def
  hex_digit_def

text \<open>
  Test vectors: the empty message, the one of \<open>test_sha1_file\<close>, and the four bytes
  \<open>FF D8 FF D9\<close> that \<open>test_cli_sanitize_runs\<close> uses as an image.
\<close>

lemma sha1_hex_empty: "sha1_hex [] = ''da39a3ee5e6b4b0d3255bfef95601890afd80709''"
  by (simp add: sha1_eval)

lemma sha1_hex_hello_world:
  "sha1_hex (map of_char ''hello world'') = ''2aae6c35c94fcfb415dbe95f408b9ce91ee846ed''"
  by (simp add: sha1_eval)

lemma sha1_hex_jpeg:
  "sha1_hex [0xFF, 0xD8, 0xFF, 0xD9] = ''d7c0d8f45ae77f941630f3e0db922800c1ce1bee''"
  by (simp add: sha1_eval)

lemma file_read_nonneg:
  "0 \<le> n \<Longrightarrow> file_read f n = Inr (take (nat n) f, drop (nat n) f)"
  by (simp add: file_read_def)

lemma sha1_loop_none:
  assumes "0 < bs"
  shows "sha1_loop bs PyNone h f = Inr (h @ f)"
proof (induction f arbitrary: h rule: length_induct)
  case (1 f)
  show ?case
  proof (cases "f = []")
    case True
    then show ?thesis
      using assms by (subst sha1_loop.simps) (simp add: chunk_size_def file_read_def)
  next
    case False
    have "length (drop (nat bs) f) < length f"
      using False assms by simp
    then have "sha1_loop bs PyNone (h @ take (nat bs) f) (drop (nat bs) f)
                 = Inr ((h @ take (nat bs) f) @ drop (nat bs) f)"
      using 1 by blast
    then show ?thesis
      using False assms
      by (subst sha1_loop.simps) (simp add: chunk_size_def file_read_def update_def)
  qed
qed

lemma take_split:
  assumes "n \<le> r"
  shows "take n f @ take (r - length (take n f)) (drop n f) = take r f"
proof (cases "length f \<le> n")
  case True
  with assms show ?thesis by simp
next
  case False
  from assms have "r = n + (r - n)" by simp
  then have "take r f = take n f @ take (r - n) (drop n f)" by (metis take_add)
  with False show ?thesis by (simp add: min_def)
qed

lemma sha1_loop_int:
  assumes "0 < bs"
  shows "0 \<le> r \<Longrightarrow> sha1_loop bs (PyInt r) h f = Inr (h @ take (nat r) f)"
proof (induction f arbitrary: h r rule: length_induct)
  case (1 f)
  let ?n = "nat (min bs r)"
  have rd: "file_read f (min bs r) = Inr (take ?n f, drop ?n f)"
    using assms 1(2) by (simp add: file_read_nonneg)
  show ?case
  proof (cases "take ?n f = []")
    case True
    then have "r = 0 \<or> f = []" using assms 1(2) by auto
    then have "take (nat r) f = []" by auto
    with True show ?thesis
      by (subst sha1_loop.simps) (simp add: chunk_size_def rd)
  next
    case False
    then have ne: "f \<noteq> []" "0 < r" using 1(2) by auto
    show ?thesis
    proof (cases "r - int (length (take ?n f)) \<le> 0")
      case True
      then have "take ?n f = take (nat r) f"
        using ne assms by (auto simp: min_def split: if_splits)
      with True False show ?thesis
        by (subst sha1_loop.simps) (simp add: chunk_size_def rd update_def)
    next
      case gt: False
      have lt: "length (drop ?n f) < length f" using ne assms by simp
      have "sha1_loop bs (PyInt (r - int (length (take ?n f)))) (h @ take ?n f) (drop ?n f)
              = Inr ((h @ take ?n f) @ take (nat (r - int (length (take ?n f)))) (drop ?n f))"
        using 1(1) lt gt by auto
      moreover have "take ?n f @ take (nat (r - int (length (take ?n f)))) (drop ?n f)
                       = take (nat r) f"
        using take_split [of ?n "nat r" f] ne by (simp add: nat_diff_distrib')
      ultimately show ?thesis
        using False gt
        by (subst sha1_loop.simps) (simp add: chunk_size_def rd update_def)
    qed
  qed
qed

lemma sha1_loop_zero:
  assumes "0 \<le> bs"
  shows "sha1_loop bs (PyInt 0) h f = Inr h"
  using assms by (subst sha1_loop.simps) (simp add: chunk_size_def file_read_nonneg)

lemma sha1_file_none:
  "lookup t p = Some (File data) \<Longrightarrow> 0 < bs \<Longrightarrow> sha1_file t p bs PyNone = Inr (sha1_hex data)"
  by (simp add: sha1_file_def sha1_loop_none hashlib_sha1_def hexdigest_def)

lemma sha1_file_int:
  "lookup t p = Some (File data) \<Longrightarrow> 0 < bs \<Longrightarrow> 0 \<le> N
     \<Longrightarrow> sha1_file t p bs (PyInt N) = Inr (sha1_hex (take (nat N) data))"
  by (simp add: sha1_file_def sha1_loop_int hashlib_sha1_def hexdigest_def)

text \<open>
  C6. The digest of a file is the SHA-1 of its bytes: with no sample limit, of all of
  them; with a sample limit \<open>N \<ge> 0\<close>, of exactly the first \<open>min N (file size)\<close> bytes, which
  for \<open>N\<close> at least the file size is the full digest again. It is a function of the bytes
  (and the limit) alone. A file holding \<open>hello world\<close> has the digest
  \<open>2aae6c35c94f...\<close> of \<open>test_sha1_file\<close>.
\<close>

theorem sha1_file_digest:
  assumes "lookup t p = Some (File data)" and "0 < bs" and "0 \<le> N"
  shows "sha1_file t p bs PyNone = Inr (sha1_hex data)
       \<and> sha1_file t p bs (PyInt N) = Inr (sha1_hex (take (min (nat N) (length data)) data))
       \<and> (int (length data) \<le> N \<longrightarrow> sha1_file t p bs (PyInt N) = sha1_file t p bs PyNone)
       \<and> sha1_file [([''a.jpg''], File (map of_char ''hello world''))] [''a.jpg''] 65536 PyNone
           = Inr ''2aae6c35c94fcfb415dbe95f408b9ce91ee846ed''"
proof -
  have "take (min (nat N) (length data)) data = take (nat N) data"
    by (simp add: min_def)
  moreover have "lookup [([''a.jpg''], File (map of_char ''hello world''))] [''a.jpg'']
                   = Some (File (map of_char ''hello world''))"
    by (simp add: lookup_def)
  ultimately show ?thesis
    using assms sha1_hex_hello_world
    by (simp add: sha1_file_none sha1_file_int del: list.map)
qed

theorem sha1_file_digest_witness:
  "sha1_file [([''a.jpg''], File (map of_char ''hello world''))] [''a.jpg''] 65536 (PyInt 5)
     = Inr (sha1_hex (map of_char ''hello''))
   \<and> sha1_file [([''a.jpg''], File (map of_char ''hello world''))] [''a.jpg''] 65536 (PyInt 11)
     = Inr ''2aae6c35c94fcfb415dbe95f408b9ce91ee846ed''"
proof -
  have f: "lookup [([''a.jpg''], File (map of_char ''hello world''))] [''a.jpg'']
             = Some (File (map of_char ''hello world''))"
    by (simp add: lookup_def)
  have b: "(0::int) < 65536" by simp
  have "sha1_file [([''a.jpg''], File (map of_char ''hello world''))] [''a.jpg''] 65536 (PyInt 5)
          = Inr (sha1_hex (map of_char ''hello''))"
    using sha1_file_digest [OF f b, of 5] by simp
  moreover have
    "sha1_file [([''a.jpg''], File (map of_char ''hello world''))] [''a.jpg''] 65536 (PyInt 11)
       = Inr ''2aae6c35c94fcfb415dbe95f408b9ce91ee846ed''"
  proof -
    note d = sha1_file_digest [OF f b, of 11]
    have "sha1_file [([''a.jpg''], File (map of_char ''hello world''))] [''a.jpg''] 65536
            (PyInt 11)
          = sha1_file [([''a.jpg''], File (map of_char ''hello world''))] [''a.jpg''] 65536
              PyNone"
      using d [THEN conjunct2, THEN conjunct2, THEN conjunct1] by simp
    also have "\<dots> = Inr ''2aae6c35c94fcfb415dbe95f408b9ce91ee846ed''"
      using d [THEN conjunct2, THEN conjunct2, THEN conjunct2] by simp
    finally show ?thesis .
  qed
  ultimately show ?thesis by simp
qed

text \<open>
  C10. With a sample size of 0 the first read asks for 0 bytes, the loop stops at once and
  the digest is that of the empty message, \<open>da39a3ee...\<close>, whatever the file holds: all
  files share one short digest. A non-empty option string that \<open>parse_size\<close> turns into 0
  reaches the \<open>Sanitizer\<close> as the integer 0, not as \<open>None\<close>.
\<close>

theorem zero_sample_size:
  assumes "lookup t p = Some (File data)" and "0 \<le> bs"
    and "s \<noteq> []" and "parse_size s = Inr 0"
  shows "sha1_file t p bs (PyInt 0) = Inr ''da39a3ee5e6b4b0d3255bfef95601890afd80709''
       \<and> short_sha \<lparr>path = p, sha1 = ''da39a3ee5e6b4b0d3255bfef95601890afd80709''\<rparr>
           = ''da39a3ee5e6b''
       \<and> cli_hash_sample_size parse_size (Some s) = Inr (PyInt 0)
       \<and> sanitize parse_size px src dst w (Some s) = Inr (run px (Sanitizer src dst w (PyInt 0)))"
  using assms
  by (simp add: sha1_file_def sha1_loop_zero hashlib_sha1_def hexdigest_def sha1_hex_empty
      short_sha_def cli_hash_sample_size_def sanitize_def)

theorem zero_sample_size_witness:
  "sha1_file [([''a.jpg''], File (map of_char ''hello world''))] [''a.jpg''] 65536 (PyInt 0)
     = Inr ''da39a3ee5e6b4b0d3255bfef95601890afd80709''
   \<and> cli_hash_sample_size (\<lambda>s. if s = ''0'' then Inr 0 else Inl InvalidSize) (Some ''0'')
     = Inr (PyInt 0)"
proof -
  have f: "lookup [([''a.jpg''], File (map of_char ''hello world''))] [''a.jpg'']
             = Some (File (map of_char ''hello world''))"
    by (simp add: lookup_def)
  have b: "(0::int) \<le> 65536" by simp
  have s: "''0'' \<noteq> []" by simp
  have z: "(\<lambda>s. if s = ''0'' then Inr 0 else Inl InvalidSize) ''0'' = Inr (0::int)" by simp
  show ?thesis
    using zero_sample_size [OF f b s, of "\<lambda>s. if s = ''0'' then Inr 0 else Inl InvalidSize", OF z]
    by simp
qed

section \<open>Directory trees: mkdir and copy\<close>

lemma inits_iff: "q \<in> set (inits p) \<longleftrightarrow> q \<noteq> [] \<and> (\<exists>r. p = q @ r)"
proof (induction p arbitrary: q)
  case Nil
  then show ?case by simp
next
  case (Cons x xs)
  show ?case
  proof (cases q)
    case Nil
    then show ?thesis by auto
  next
    case (Cons y ys)
    then show ?thesis
      using Cons.IH [of ys] by (cases "ys = []") auto
  qed
qed

lemma inits_Nil_iff [simp]: "inits p = [] \<longleftrightarrow> p = []"
  by (cases p) simp_all

lemma butlast_inits: "butlast (inits p) = inits (butlast p)"
proof (induction p)
  case Nil
  then show ?case by simp
next
  case (Cons x xs)
  show ?case
  proof (cases "xs = []")
    case True
    then show ?thesis by simp
  next
    case False
    then have "butlast (inits (x # xs)) = [x] # map ((#) x) (butlast (inits xs))"
      by (simp add: map_butlast)
    also have "\<dots> = inits (butlast (x # xs))"
      using False Cons.IH by simp
    finally show ?thesis .
  qed
qed

lemma butlast_inits_iff:
  "q \<in> set (butlast (inits p)) \<longleftrightarrow> q \<noteq> [] \<and> (\<exists>r. r \<noteq> [] \<and> p = q @ r)"
proof (cases "q = []")
  case True
  then show ?thesis by (simp add: butlast_inits inits_iff)
next
  case q: False
  have "(\<exists>r. butlast p = q @ r) \<longleftrightarrow> (\<exists>r. r \<noteq> [] \<and> p = q @ r)"
  proof
    assume "\<exists>r. butlast p = q @ r"
    then obtain r where r: "butlast p = q @ r" ..
    with q have "p \<noteq> []" by auto
    then have "p = butlast p @ [last p]" by simp
    then have "p = q @ (r @ [last p])" using r by simp
    then show "\<exists>r. r \<noteq> [] \<and> p = q @ r" by blast
  next
    assume "\<exists>r. r \<noteq> [] \<and> p = q @ r"
    then obtain r where "r \<noteq> []" "p = q @ r" by blast
    then have "butlast p = q @ butlast r" by (simp add: butlast_append)
    then show "\<exists>r. butlast p = q @ r" ..
  qed
  then show ?thesis by (simp add: butlast_inits inits_iff)
qed

lemma wf_fs_iff:
  "wf_fs t \<longleftrightarrow> (\<forall>p q r. p \<in> fst ` set t \<longrightarrow> p = q @ r \<longrightarrow> r \<noteq> [] \<longrightarrow> is_dir t q)"
proof
  assume wf: "wf_fs t"
  show "\<forall>p q r. p \<in> fst ` set t \<longrightarrow> p = q @ r \<longrightarrow> r \<noteq> [] \<longrightarrow> is_dir t q"
  proof (intro allI impI)
    fix p q r
    assume p: "p \<in> fst ` set t" and pq: "p = q @ r" and r: "r \<noteq> []"
    show "is_dir t q"
    proof (cases "q = []")
      case True
      then show ?thesis by (simp add: is_dir_def lookup_def)
    next
      case False
      with pq r have "q \<in> set (butlast (inits p))"
        unfolding butlast_inits_iff by blast
      with wf p show ?thesis
        by (auto simp: wf_fs_def list_all_iff)
    qed
  qed
next
  assume a: "\<forall>p q r. p \<in> fst ` set t \<longrightarrow> p = q @ r \<longrightarrow> r \<noteq> [] \<longrightarrow> is_dir t q"
  have "is_dir t q" if "p \<in> fst ` set t" and "q \<in> set (butlast (inits p))" for p q
    using that a unfolding butlast_inits_iff by blast
  then show "wf_fs t"
    by (auto simp: wf_fs_def list_all_iff)
qed

lemma lookup_mkdir:
  assumes "mkdir_parents t p = Inr t'"
  shows "lookup t' q = (if q \<in> set (inits p) \<and> lookup t q = None then Some Dir else lookup t q)"
proof -
  from assms have t': "t' = map (\<lambda>q. (q, Dir)) (filter (\<lambda>q. lookup t q = None) (inits p)) @ t"
    by (simp add: mkdir_parents_def split: if_splits)
  have "map_of (map (\<lambda>q. (q, Dir)) xs) q = (if q \<in> set xs then Some Dir else None)" for xs
    by (induction xs) auto
  then show ?thesis
    unfolding t' lookup_def by (auto simp: map_add_def inits_iff split: option.splits)
qed

lemma mkdir_no_files:
  assumes "mkdir_parents t p = Inr t'" and "q \<in> set (inits p)"
  shows "is_dir t' q"
proof -
  from assms(1) have nf: "\<not> list_ex (is_file t) (butlast (inits p))" "\<not> is_file t p"
    by (auto simp: mkdir_parents_def split: if_splits)
  have "\<not> is_file t q"
  proof (cases "q = p")
    case True
    with nf show ?thesis by simp
  next
    case False
    with assms(2) have "q \<in> set (butlast (inits p))"
      by (auto simp: inits_iff butlast_inits_iff)
    with nf show ?thesis by (auto simp: list_ex_iff)
  qed
  then show ?thesis
    using assms(2) by (auto simp: is_dir_def is_file_def lookup_mkdir [OF assms(1)]
        split: option.splits node.splits)
qed


lemma is_dir_root [simp]: "is_dir t []"
  by (simp add: is_dir_def lookup_def)

lemma is_dir_key: "is_dir t p \<Longrightarrow> p \<noteq> [] \<Longrightarrow> p \<in> fst ` set t"
  by (auto simp: is_dir_def lookup_def dest: map_of_SomeD intro: rev_image_eqI)

lemma is_file_key: "is_file t p \<Longrightarrow> p \<in> fst ` set t"
  by (auto simp: is_file_def lookup_def dest!: map_of_SomeD intro: rev_image_eqI
      split: option.splits node.splits if_splits)

lemma is_dir_not_file: "is_dir t p \<Longrightarrow> \<not> is_file t p"
  by (simp add: is_dir_def is_file_def)

lemma copy2_Inr:
  assumes "copy2 s src t dst = Inr t'"
  obtains data where "lookup s src = Some (File data)"
    and "t' = ((if is_dir t dst then dst @ [name src] else dst), File data) # t"
    and "\<not> is_dir t (if is_dir t dst then dst @ [name src] else dst)"
    and "is_dir t (butlast (if is_dir t dst then dst @ [name src] else dst))"
  using assms
  by (auto simp: copy2_def Let_def split: option.splits node.splits if_splits)

lemma wf_put_file:
  assumes wf: "wf_fs t" and nd: "\<not> is_dir t p"
    and par: "p \<in> fst ` set t \<or> is_dir t (butlast p)"
  shows "wf_fs ((p, File d) # t)"
proof -
  from nd have pne: "p \<noteq> []" by auto
  have dir: "is_dir ((p, File d) # t) q \<longleftrightarrow> is_dir t q" for q
    using nd by (auto simp: is_dir_def lookup_def)
  have "is_dir t q" if "k \<in> fst ` set ((p, File d) # t)" and "k = q @ r" and "r \<noteq> []" for k q r
  proof (cases "k \<in> fst ` set t")
    case True
    with wf that show ?thesis unfolding wf_fs_iff by blast
  next
    case False
    with that have k: "k = p" by auto
    with False par have bp: "is_dir t (butlast p)" by blast
    from k that(2) have pq: "p = q @ r" by simp
    have b: "butlast p = q @ butlast r"
      unfolding pq using that(3) by (simp add: butlast_append)
    show ?thesis
    proof (cases "butlast r = []")
      case True
      with b bp show ?thesis by simp
    next
      case nb: False
      with b have "butlast p \<noteq> []" by simp
      with bp have "butlast p \<in> fst ` set t" by (rule is_dir_key)
      with wf b nb show ?thesis unfolding wf_fs_iff by blast
    qed
  qed
  then show ?thesis
    unfolding wf_fs_iff [of "(p, File d) # t"] dir by blast
qed

lemma wf_mkdir:
  assumes wf: "wf_fs t" and mk: "mkdir_parents t p = Inr t'"
  shows "wf_fs t'"
proof -
  from mk have t': "t' = map (\<lambda>q. (q, Dir)) (filter (\<lambda>q. lookup t q = None) (inits p)) @ t"
    by (simp add: mkdir_parents_def split: if_splits)
  have keep: "is_dir t q \<Longrightarrow> is_dir t' q" for q
    by (simp add: is_dir_def lookup_mkdir [OF mk])
  have "is_dir t' q" if "k \<in> fst ` set t'" and "k = q @ r" and "r \<noteq> []" for k q r
  proof (cases "k \<in> fst ` set t")
    case True
    with wf that have "is_dir t q" unfolding wf_fs_iff by blast
    then show ?thesis by (rule keep)
  next
    case False
    with that(1) have "k \<in> set (inits p)" by (auto simp: t')
    with that(2) obtain r' where "p = q @ r'" by (auto simp: inits_iff)
    then have "q = [] \<or> q \<in> set (inits p)" by (auto simp: inits_iff)
    then show ?thesis using mkdir_no_files [OF mk] by auto
  qed
  then show ?thesis unfolding wf_fs_iff by blast
qed

lemma wf_copy2:
  assumes "wf_fs t" and "copy2 s src t dst = Inr t'"
  shows "wf_fs t'"
  using assms(2)
proof (rule copy2_Inr)
  fix data
  assume "t' = ((if is_dir t dst then dst @ [name src] else dst), File data) # t"
    and "\<not> is_dir t (if is_dir t dst then dst @ [name src] else dst)"
    and "is_dir t (butlast (if is_dir t dst then dst @ [name src] else dst))"
  with assms(1) show ?thesis by (simp add: wf_put_file)
qed

lemma mkdir_unchanged:
  assumes wf: "wf_fs t" and mk: "mkdir_parents t p = Inr t'" and d: "is_dir t' (p @ r)" "r \<noteq> []"
  shows "t' = t"
proof -
  from d(2) have "p @ r \<notin> set (inits p)" by (auto simp: inits_iff)
  with d(1) have pr: "is_dir t (p @ r)"
    by (simp add: is_dir_def lookup_mkdir [OF mk] split: if_splits)
  then have key: "p @ r \<in> fst ` set t" using d(2) by (auto intro: is_dir_key)
  have "lookup t q \<noteq> None" if "q \<in> set (inits p)" for q
  proof -
    from that obtain r' where "p = q @ r'" by (auto simp: inits_iff)
    then have "p @ r = q @ (r' @ r)" by simp
    with wf key d(2) have "is_dir t q" unfolding wf_fs_iff by blast
    then show ?thesis by (simp add: is_dir_def)
  qed
  then have "filter (\<lambda>q. lookup t q = None) (inits p) = []"
    by (auto simp: filter_empty_conv)
  with mk show ?thesis by (simp add: mkdir_parents_def split: if_splits)
qed

lemma copy_image_fail_unchanged:
  assumes wf: "wf_fs (dest s)" and src: "lookup (source s) (path im) = Some (File data)"
    and c: "copy_image im s = (Inl e, s')"
  shows "s' = s"
proof (cases "mkdir_parents (dest s) (butlast (path im))")
  case (Inl e')
  with c show ?thesis by (simp add: copy_image_def split: if_splits)
next
  case (Inr t)
  let ?d = "butlast (path im)"
  let ?dst = "?d @ [short_sha im @ extension im]"
  from src have ne: "path im \<noteq> []" by (auto simp: lookup_def)
  from c Inr ne have s': "s' = s\<lparr>dest := t\<rparr>" and f: "copy2 (source s) (path im) t ?dst = Inl e"
    by (auto simp: copy_image_def split: if_splits sum.splits)
  have dd: "is_dir t ?d"
  proof (cases "?d = []")
    case True
    then show ?thesis by simp
  next
    case False
    then have "?d \<in> set (inits ?d)" by (simp add: inits_iff)
    then show ?thesis by (rule mkdir_no_files [OF Inr])
  qed
  have "is_dir t ?dst"
    using f src dd by (auto simp: copy2_def Let_def is_dir_not_file split: if_splits)
  then have "t = dest s"
    using mkdir_unchanged [OF wf Inr, of "[short_sha im @ extension im]"] by simp
  with s' show ?thesis by simp
qed

lemma sha1_file_Inr: "sha1_file t p bs n = Inr d \<Longrightarrow> \<exists>data. lookup t p = Some (File data)"
  by (auto simp: sha1_file_def split: option.splits node.splits)

section \<open>Processing one file, and all of them\<close>

lemma inc_simps [simp]:
  "report (inc_failed s) = (report s)\<lparr>failed := failed (report s) + 1\<rparr>"
  "report (inc_copied s) = (report s)\<lparr>copied := copied (report s) + 1\<rparr>"
  "report (inc_ignored s) = (report s)\<lparr>ignored := ignored (report s) + 1\<rparr>"
  "dest (inc_failed s) = dest s" "dest (inc_copied s) = dest s" "dest (inc_ignored s) = dest s"
  "source (inc_failed s) = source s" "source (inc_copied s) = source s"
  "source (inc_ignored s) = source s"
  "hash_sample_size (inc_failed s) = hash_sample_size s"
  "hash_sample_size (inc_copied s) = hash_sample_size s"
  "hash_sample_size (inc_ignored s) = hash_sample_size s"
  "worker (inc_failed s) = worker s" "worker (inc_copied s) = worker s"
  "worker (inc_ignored s) = worker s"
  by (simp_all add: inc_failed_def inc_copied_def inc_ignored_def)

lemma clean_exif_try_error: "clean_exif_try px p t = (Inl e, t') \<Longrightarrow> t' = t"
  by (auto simp: clean_exif_try_def split: option.splits node.splits sum.splits)

lemma copy_image_frame:
  "copy_image im s = (r, s') \<Longrightarrow>
     report s' = report s \<and> source s' = source s \<and> hash_sample_size s' = hash_sample_size s
     \<and> worker s' = worker s"
  by (auto simp: copy_image_def split: if_splits sum.splits)

lemma clean_exif_frame [simp]:
  "source (clean_exif px p s) = source s"
  "hash_sample_size (clean_exif px p s) = hash_sample_size s"
  "worker (clean_exif px p s) = worker s"
  by (auto simp: clean_exif_def split: prod.splits sum.splits)

lemma clean_exif_report:
  "report (clean_exif px p s) =
     (case fst (clean_exif_try px p (dest s)) of
        Inl e \<Rightarrow> (report s)\<lparr>failed := failed (report s) + 1\<rparr> | Inr u \<Rightarrow> report s)"
  by (auto simp: clean_exif_def split: prod.splits sum.splits)

lemma process_file_step:
  "(ignored (report (process_file px f ex s)) - ignored (report s),
    copied (report (process_file px f ex s)) - copied (report s),
    failed (report (process_file px f ex s)) - failed (report s))
   \<in> {(1, 0, 0), (0, 1, 0), (0, 0, 1), (0, 1, 1)}"
  by (auto simp: process_file_def process_file_try_def clean_exif_report
      dest!: copy_image_frame split: sum.splits prod.splits)

lemma process_file_double:
  "(copied (report (process_file px f ex s)) = copied (report s) + 1
      \<and> failed (report (process_file px f ex s)) = failed (report s) + 1)
   = (\<exists>d dst s'. sha1_file (source s) f 65536 (hash_sample_size s) = Inr d
        \<and> take 12 d \<notin> ex \<and> copy_image \<lparr>path = f, sha1 = d\<rparr> s = (Inr dst, s')
        \<and> (\<exists>e. fst (clean_exif_try px dst (dest s')) = Inl e))"
  by (auto simp: process_file_def process_file_try_def clean_exif_report short_sha_def
      dest!: copy_image_frame split: sum.splits prod.splits)

lemma process_file_frame [simp]:
  "source (process_file px f ex s) = source s"
  "hash_sample_size (process_file px f ex s) = hash_sample_size s"
  "worker (process_file px f ex s) = worker s"
  by (auto simp: process_file_def process_file_try_def
      dest!: copy_image_frame split: sum.splits prod.splits)

lemma process_all_Nil [simp]: "process_all px ex [] s = s"
  by (simp add: process_all_def)

lemma process_all_Cons [simp]:
  "process_all px ex (f # fs) s = process_all px ex fs (process_file px f ex s)"
  by (simp add: process_all_def)

lemma process_all_append:
  "process_all px ex (xs @ ys) s = process_all px ex ys (process_all px ex xs s)"
  by (simp add: process_all_def)

lemma process_all_frame [simp]:
  "source (process_all px ex fs s) = source s"
  "hash_sample_size (process_all px ex fs s) = hash_sample_size s"
  "worker (process_all px ex fs s) = worker s"
  by (induction fs arbitrary: s) simp_all

lemma process_all_counts:
  "ignored (report (process_all px ex fs s)) + copied (report (process_all px ex fs s))
     \<le> ignored (report s) + copied (report s) + int (length fs)
   \<and> ignored (report s) + copied (report s) + failed (report s) + int (length fs)
     \<le> ignored (report (process_all px ex fs s)) + copied (report (process_all px ex fs s))
         + failed (report (process_all px ex fs s))
   \<and> ignored (report (process_all px ex fs s)) + failed (report (process_all px ex fs s))
     \<le> ignored (report s) + failed (report s) + int (length fs)
   \<and> ignored (report s) \<le> ignored (report (process_all px ex fs s))
   \<and> copied (report s) \<le> copied (report (process_all px ex fs s))
   \<and> failed (report s) \<le> failed (report (process_all px ex fs s))"
proof (induction fs arbitrary: s)
  case Nil
  then show ?case by simp
next
  case (Cons f fs)
  from process_file_step [of px f ex s] Cons.IH [of "process_file px f ex s"]
  show ?case by auto
qed

lemma clean_exif_try_cases:
  assumes "clean_exif_try px p t = (r, t')"
  shows "t' = t \<or> (\<exists>d d'. lookup t p = Some (File d) \<and> t' = (p, File d') # t \<and> r = Inr ())"
  using assms
  by (auto simp: clean_exif_try_def split: option.splits node.splits sum.splits)

lemma is_file_iff: "is_file t p \<longleftrightarrow> (\<exists>d. lookup t p = Some (File d))"
  by (auto simp: is_file_def split: option.splits node.splits)

lemma wf_clean_exif_try:
  assumes "wf_fs t" and "clean_exif_try px p t = (r, t')"
  shows "wf_fs t'"
proof -
  from clean_exif_try_cases [OF assms(2)] show ?thesis
  proof
    assume "t' = t"
    with assms(1) show ?thesis by simp
  next
    assume "\<exists>d d'. lookup t p = Some (File d) \<and> t' = (p, File d') # t \<and> r = Inr ()"
    then obtain d d' where f: "lookup t p = Some (File d)" and t': "t' = (p, File d') # t"
      by blast
    from f have "is_file t p" by (auto simp: is_file_iff)
    then have "p \<in> fst ` set t" by (rule is_file_key)
    moreover from f have "\<not> is_dir t p" by (simp add: is_dir_def)
    ultimately show ?thesis
      unfolding t' using assms(1) by (simp add: wf_put_file)
  qed
qed

lemma dest_clean_exif: "dest (clean_exif px p s) = snd (clean_exif_try px p (dest s))"
  by (simp add: clean_exif_def split: prod.splits sum.splits)

lemma wf_clean_exif:
  assumes "wf_fs (dest s)"
  shows "wf_fs (dest (clean_exif px p s))"
proof -
  obtain r t where c: "clean_exif_try px p (dest s) = (r, t)"
    by (cases "clean_exif_try px p (dest s)")
  from wf_clean_exif_try [OF assms c] show ?thesis
    by (simp add: dest_clean_exif c)
qed

lemma wf_copy_image:
  assumes "wf_fs (dest s)" and "copy_image im s = (r, s')"
  shows "wf_fs (dest s')"
proof (cases "path im = []")
  case True
  with assms show ?thesis by (simp add: copy_image_def)
next
  case ne: False
  show ?thesis
  proof (cases "mkdir_parents (dest s) (butlast (path im))")
    case (Inl e)
    with assms ne show ?thesis by (simp add: copy_image_def)
  next
    case mk: (Inr t)
    with assms(1) have wt: "wf_fs t" by (rule wf_mkdir)
    show ?thesis
    proof (cases "copy2 (source s) (path im) t
                    (butlast (path im) @ [short_sha im @ extension im])")
      case (Inl e)
      with assms(2) ne mk have "s' = s\<lparr>dest := t\<rparr>" by (simp add: copy_image_def)
      with wt show ?thesis by simp
    next
      case (Inr t')
      with wt have "wf_fs t'" by (rule wf_copy2)
      moreover from assms(2) ne mk Inr have "s' = s\<lparr>dest := t'\<rparr>"
        by (simp add: copy_image_def)
      ultimately show ?thesis by simp
    qed
  qed
qed

lemma process_file_cases:
  obtains (digest_failed) e where
      "sha1_file (source s) f 65536 (hash_sample_size s) = Inl e"
      "process_file px f ex s = inc_failed s"
  | (ignored) d where
      "sha1_file (source s) f 65536 (hash_sample_size s) = Inr d" "take 12 d \<in> ex"
      "process_file px f ex s = inc_ignored s"
  | (copy_failed) d e s' where
      "sha1_file (source s) f 65536 (hash_sample_size s) = Inr d" "take 12 d \<notin> ex"
      "copy_image \<lparr>path = f, sha1 = d\<rparr> s = (Inl e, s')"
      "process_file px f ex s = inc_failed s'"
  | (copied) d dst s' where
      "sha1_file (source s) f 65536 (hash_sample_size s) = Inr d" "take 12 d \<notin> ex"
      "copy_image \<lparr>path = f, sha1 = d\<rparr> s = (Inr dst, s')"
      "process_file px f ex s = inc_copied (clean_exif px dst s')"
proof (cases "sha1_file (source s) f 65536 (hash_sample_size s)")
  case (Inl e)
  then have "process_file px f ex s = inc_failed s"
    by (simp add: process_file_def process_file_try_def)
  with Inl show ?thesis by (rule digest_failed)
next
  case (Inr d)
  show ?thesis
  proof (cases "take 12 d \<in> ex")
    case True
    with Inr have "process_file px f ex s = inc_ignored s"
      by (simp add: process_file_def process_file_try_def short_sha_def)
    with Inr True show ?thesis by (rule ignored)
  next
    case False
    obtain r s' where c: "copy_image \<lparr>path = f, sha1 = d\<rparr> s = (r, s')"
      by (cases "copy_image \<lparr>path = f, sha1 = d\<rparr> s")
    show ?thesis
    proof (cases r)
      case (Inl e)
      with Inr False c have "process_file px f ex s = inc_failed s'"
        by (simp add: process_file_def process_file_try_def short_sha_def)
      with Inr False c Inl show ?thesis by (auto intro: copy_failed)
    next
      case r: (Inr dst)
      with Inr False c have "process_file px f ex s = inc_copied (clean_exif px dst s')"
        by (simp add: process_file_def process_file_try_def short_sha_def)
      with Inr False c r show ?thesis by (auto intro: copied)
    qed
  qed
qed

lemma wf_process_file:
  assumes "wf_fs (dest s)"
  shows "wf_fs (dest (process_file px f ex s))"
proof (cases rule: process_file_cases [of s f px ex])
  case (digest_failed e)
  with assms show ?thesis by simp
next
  case (ignored d)
  with assms show ?thesis by simp
next
  case (copy_failed d e s')
  with assms wf_copy_image [OF assms copy_failed(3)] show ?thesis by simp
next
  case (copied d dst s')
  with wf_copy_image [OF assms copied(3)] show ?thesis by (simp add: wf_clean_exif)
qed

lemma wf_process_all: "wf_fs (dest s) \<Longrightarrow> wf_fs (dest (process_all px ex fs s))"
  by (induction fs arbitrary: s) (simp_all add: wf_process_file)

lemma copy_image_inc_failed:
  "copy_image im (inc_failed s) = (case copy_image im s of (r, s') \<Rightarrow> (r, inc_failed s'))"
  by (simp add: copy_image_def inc_failed_def split: sum.splits)

lemma clean_exif_inc_failed: "clean_exif px p (inc_failed s) = inc_failed (clean_exif px p s)"
  by (simp add: clean_exif_def inc_failed_def split: prod.splits sum.splits)

lemma inc_commute:
  "inc_ignored (inc_failed s) = inc_failed (inc_ignored s)"
  "inc_copied (inc_failed s) = inc_failed (inc_copied s)"
  by (simp_all add: inc_failed_def inc_copied_def inc_ignored_def)

lemma process_file_inc_failed:
  "process_file px f ex (inc_failed s) = inc_failed (process_file px f ex s)"
proof (cases rule: process_file_cases [of s f px ex])
  case (digest_failed e)
  then show ?thesis by (simp add: process_file_def process_file_try_def)
next
  case (ignored d)
  then show ?thesis
    by (simp add: process_file_def process_file_try_def short_sha_def inc_commute)
next
  case (copy_failed d e s')
  then show ?thesis
    by (simp add: process_file_def process_file_try_def short_sha_def copy_image_inc_failed)
next
  case (copied d dst s')
  then show ?thesis
    by (simp add: process_file_def process_file_try_def short_sha_def copy_image_inc_failed
        clean_exif_inc_failed inc_commute)
qed

lemma process_all_inc_failed:
  "process_all px ex fs (inc_failed s) = inc_failed (process_all px ex fs s)"
  by (induction fs arbitrary: s) (simp_all add: process_file_inc_failed)


lemmas path_eval = suffix_def stem_def name_def rfind_def lower_def lower_char_def upper_chars_def
  lower_chars_def
lemmas fs_eval = lookup_def is_dir_def is_file_def rglob_def mkdir_parents_def copy2_def
lemmas run_eval = run_def process_all_def Sanitizer_def files_def existing_hashes_def
  List.map_filter_def process_file_def process_file_try_def short_sha_def extension_def
  copy_image_def clean_exif_def clean_exif_try_def inc_failed_def inc_copied_def inc_ignored_def
  Report_def



text \<open>
  C1 (amended). Each candidate file adds one to exactly one of \<open>ignored\<close>, \<open>copied\<close> and
  \<open>failed\<close>, except that a file whose copy succeeded and whose sanitize step failed adds
  one to both \<open>copied\<close> and \<open>failed\<close>. At the end of a run over \<open>N\<close> candidates,
  \<open>N \<le> ignored + copied + failed \<le> N + copied\<close> and \<open>ignored + copied \<le> N\<close>.
\<close>

theorem counters_partition_amended:
  fixes px :: piexif and src dst :: fs and w :: int and n :: pyval
  defines "r \<equiv> report (run px (Sanitizer src dst w n))"
    and "N \<equiv> int (length (files src))"
  shows "N \<le> ignored r + copied r + failed r
       \<and> ignored r + copied r + failed r \<le> N + copied r
       \<and> ignored r + copied r \<le> N
       \<and> (\<forall>s f ex.
            (ignored (report (process_file px f ex s)) - ignored (report s),
             copied (report (process_file px f ex s)) - copied (report s),
             failed (report (process_file px f ex s)) - failed (report s))
            \<in> {(1, 0, 0), (0, 1, 0), (0, 0, 1), (0, 1, 1)})
       \<and> (\<forall>s f ex.
            (copied (report (process_file px f ex s)) = copied (report s) + 1
               \<and> failed (report (process_file px f ex s)) = failed (report s) + 1)
            = (\<exists>d dst s'. sha1_file (source s) f 65536 (hash_sample_size s) = Inr d
                 \<and> take 12 d \<notin> ex \<and> copy_image \<lparr>path = f, sha1 = d\<rparr> s = (Inr dst, s')
                 \<and> (\<exists>e. fst (clean_exif_try px dst (dest s')) = Inl e)))"
proof -
  have "report (Sanitizer src dst w n) = \<lparr>ignored = 0, copied = 0, failed = 0\<rparr>"
    "source (Sanitizer src dst w n) = src"
    by (simp_all add: Sanitizer_def Report_def)
  with process_all_counts [of px "existing_hashes dst" "files src" "Sanitizer src dst w n"]
  have "N \<le> ignored r + copied r + failed r
       \<and> ignored r + copied r + failed r \<le> N + copied r
       \<and> ignored r + copied r \<le> N"
    by (simp add: r_def N_def run_def Sanitizer_def Report_def)
  then show ?thesis
    using process_file_step [of px] process_file_double [of px] by blast
qed

text \<open>
  The partition as the specification states it fails: one candidate whose metadata
  \<open>piexif\<close> refuses is counted as copied and as failed, and the counters sum to 2.
\<close>

theorem counters_partition_counterexample:
  "files [([''a.jpg''], File [])] = [[''a.jpg'']]
   \<and> report (run piexif_refusing (Sanitizer [([''a.jpg''], File [])] [] 1 PyNone))
       = \<lparr>ignored = 0, copied = 1, failed = 1\<rparr>"
  by (simp add: run_eval path_eval fs_eval sha1_file_none sha1_hex_empty piexif_refusing_def)

text \<open>
  C2 (amended). When the sanitize step fails for a file whose copy has landed,
  \<open>_clean_exif\<close> returns without raising, \<open>failed\<close> goes up by one, the destination tree
  stays as the copy left it, and \<open>copied\<close> goes up by one as well: \<open>copied\<close> counts the files
  whose copy step succeeded, whatever the sanitize step did.
\<close>

theorem sanitize_failure_amended:
  assumes "sha1_file (source self) f 65536 (hash_sample_size self) = Inr d"
    and "take 12 d \<notin> ex"
    and "copy_image \<lparr>path = f, sha1 = d\<rparr> self = (Inr dst, self')"
    and "fst (clean_exif_try px dst (dest self')) = Inl e"
  shows "clean_exif px dst self' = inc_failed self'
       \<and> process_file px f ex self = inc_copied (inc_failed self')
       \<and> dest (process_file px f ex self) = dest self'
       \<and> report (process_file px f ex self)
           = \<lparr>ignored = ignored (report self), copied = copied (report self) + 1,
              failed = failed (report self) + 1\<rparr>"
proof -
  obtain t where t: "clean_exif_try px dst (dest self') = (Inl e, t)"
    using assms(4) by (cases "clean_exif_try px dst (dest self')") simp
  then have "t = dest self'" by (rule clean_exif_try_error)
  with t have c: "clean_exif px dst self' = inc_failed self'"
    by (simp add: clean_exif_def)
  from assms(1-3) have p: "process_file px f ex self = inc_copied (clean_exif px dst self')"
    by (simp add: process_file_def process_file_try_def short_sha_def)
  from copy_image_frame [OF assms(3)] have "report self' = report self" by simp
  with c p show ?thesis by simp
qed

theorem sanitize_failure_amended_witness:
  "process_file piexif_refusing [''a.jpg''] {} (Sanitizer [([''a.jpg''], File [])] [] 1 PyNone)
     = inc_copied (inc_failed ((Sanitizer [([''a.jpg''], File [])] [] 1 PyNone)
         \<lparr>dest := [([''da39a3ee5e6b.jpg''], File [])]\<rparr>))"
proof -
  let ?S = "Sanitizer [([''a.jpg''], File [])] [] 1 PyNone"
  have a: "sha1_file (source ?S) [''a.jpg''] 65536 (hash_sample_size ?S)
             = Inr ''da39a3ee5e6b4b0d3255bfef95601890afd80709''"
    by (simp add: Sanitizer_def sha1_file_none lookup_def sha1_hex_empty)
  have b: "take 12 ''da39a3ee5e6b4b0d3255bfef95601890afd80709'' \<notin> {}" by simp
  have c: "copy_image \<lparr>path = [''a.jpg''], sha1 = ''da39a3ee5e6b4b0d3255bfef95601890afd80709''\<rparr> ?S
             = (Inr [''da39a3ee5e6b.jpg''], ?S\<lparr>dest := [([''da39a3ee5e6b.jpg''], File [])]\<rparr>)"
    by (simp add: Sanitizer_def copy_image_def short_sha_def extension_def path_eval fs_eval)
  have d: "fst (clean_exif_try piexif_refusing [''da39a3ee5e6b.jpg'']
                  (dest (?S\<lparr>dest := [([''da39a3ee5e6b.jpg''], File [])]\<rparr>)))
             = Inl InvalidImageDataError"
    by (simp add: clean_exif_try_def lookup_def piexif_refusing_def)
  from sanitize_failure_amended [OF a b c d] show ?thesis by simp
qed

text \<open>
  The claim as the specification states it fails: the sanitize step fails on the copied
  file, and \<open>copied\<close> is 1 afterwards.
\<close>

theorem sanitize_failure_counterexample:
  "fst (clean_exif_try piexif_refusing [''da39a3ee5e6b.jpg''] [([''da39a3ee5e6b.jpg''], File [])])
     = Inl InvalidImageDataError
   \<and> process_file piexif_refusing [''a.jpg''] {} (Sanitizer [([''a.jpg''], File [])] [] 1 PyNone)
     = \<lparr>source = [([''a.jpg''], File [])], dest = [([''da39a3ee5e6b.jpg''], File [])],
        worker = 1, report = \<lparr>ignored = 0, copied = 1, failed = 1\<rparr>,
        hash_sample_size = PyNone\<rparr>"
  by (simp add: run_eval path_eval fs_eval sha1_file_none sha1_hex_empty piexif_refusing_def)

section \<open>The destination index\<close>

lemma hex12_Some: "hex12 s = Some g \<longleftrightarrow> g = take 12 s \<and> 12 \<le> length s \<and> list_all is_hex (take 12 s)"
  by (auto simp: hex12_def)

lemma hex12_append: "length g = 12 \<Longrightarrow> list_all is_hex g \<Longrightarrow> hex12 (g @ b) = Some g"
  by (simp add: hex12_def)

lemma hex12_run:
  assumes "hex12 s = Some g"
  shows "length g = 12 \<and> list_all is_hex g \<and> s = g @ drop 12 s"
  using assms by (auto simp: hex12_Some)

lemma scan_Some:
  "scan s = Some g \<Longrightarrow> length g = 12 \<and> list_all is_hex g \<and> (\<exists>a b. s = a @ g @ b)"
proof (induction s)
  case Nil
  then show ?case by simp
next
  case (Cons c s)
  show ?case
  proof (cases "hex12 (c # s)")
    case None
    with Cons obtain a b where "length g = 12" "list_all is_hex g" "s = a @ g @ b" by auto
    then have "c # s = (c # a) @ g @ b" by simp
    with \<open>length g = 12\<close> \<open>list_all is_hex g\<close> show ?thesis by blast
  next
    case (Some h)
    with Cons.prems have "h = g" by simp
    with Some have "length g = 12 \<and> list_all is_hex g \<and> c # s = [] @ g @ drop 12 (c # s)"
      using hex12_run [of "c # s" g] by simp
    then show ?thesis by blast
  qed
qed

lemma scan_finds:
  "length g = 12 \<Longrightarrow> list_all is_hex g \<Longrightarrow> scan (a @ g @ b) \<noteq> None"
proof (induction a)
  case Nil
  then obtain c g' where "g = c # g'" by (cases g) auto
  with Nil hex12_append [of g b] show ?case by simp
next
  case (Cons x a)
  then show ?case by (simp split: option.splits)
qed

lemma prefixed_Some:
  assumes "prefixed s = Some g"
  shows "length g = 12 \<and> list_all is_hex g \<and> (\<exists>a b. s = a @ g @ b)"
proof -
  from assms have r: "dropWhile is_digit s \<noteq> []"
    and h: "hex12 (tl (dropWhile is_digit s)) = Some g"
    by (auto simp: prefixed_def Let_def split: if_splits)
  from r obtain x xs where rx: "dropWhile is_digit s = x # xs"
    by (cases "dropWhile is_digit s") auto
  with h have g: "length g = 12" "list_all is_hex g" "xs = g @ drop 12 xs"
    using hex12_run [of xs g] by simp_all
  have "s = takeWhile is_digit s @ dropWhile is_digit s" by simp
  then have "s = takeWhile is_digit s @ x # xs" by (simp only: rx)
  then have "s = (takeWhile is_digit s @ [x]) @ xs" by simp
  with g(3) have "s = (takeWhile is_digit s @ [x]) @ g @ drop 12 xs" by simp
  with g show ?thesis by blast
qed

lemma hash_search_Some:
  "hash_search s = Some g \<Longrightarrow> length g = 12 \<and> list_all is_hex g \<and> (\<exists>a b. s = a @ g @ b)"
  by (auto simp: hash_search_def dest: prefixed_Some scan_Some split: option.splits)

lemma hash_search_None:
  "hash_search s = None \<longleftrightarrow> \<not> (\<exists>a g b. s = a @ g @ b \<and> length g = 12 \<and> list_all is_hex g)"
proof
  assume n: "hash_search s = None"
  show "\<not> (\<exists>a g b. s = a @ g @ b \<and> length g = 12 \<and> list_all is_hex g)"
  proof
    assume "\<exists>a g b. s = a @ g @ b \<and> length g = 12 \<and> list_all is_hex g"
    then obtain a g b where "s = a @ g @ b" "length g = 12" "list_all is_hex g" by blast
    then have "scan s \<noteq> None" using scan_finds by simp
    with n show False by (simp add: hash_search_def split: option.splits)
  qed
next
  assume "\<not> (\<exists>a g b. s = a @ g @ b \<and> length g = 12 \<and> list_all is_hex g)"
  then show "hash_search s = None"
    using hash_search_Some [of s] by (cases "hash_search s") auto
qed

lemma not_hex_underscore: "\<not> is_hex CHR ''_''"
  by (simp add: is_hex_def)

lemma prefixed_hex: "list_all is_hex s \<Longrightarrow> prefixed s = None"
proof -
  assume a: "list_all is_hex s"
  have "hd (dropWhile is_digit s) \<noteq> CHR ''_''" if "dropWhile is_digit s \<noteq> []"
  proof -
    from that have "hd (dropWhile is_digit s) \<in> set (dropWhile is_digit s)" by simp
    then have "hd (dropWhile is_digit s) \<in> set s" by (rule set_dropWhileD)
    with a have "is_hex (hd (dropWhile is_digit s))" by (simp add: list_all_iff)
    with not_hex_underscore show ?thesis by auto
  qed
  then show ?thesis by (auto simp: prefixed_def Let_def)
qed

lemma hash_search_hex12:
  assumes "length s = 12" and "list_all is_hex s"
  shows "hash_search s = Some s"
proof -
  from assms(1) obtain c s' where "s = c # s'" by (cases s) auto
  with assms have "scan s = Some s" by (simp add: hex12_def)
  with prefixed_hex [OF assms(2)] show ?thesis by (simp add: hash_search_def)
qed

lemma exact_shape_search: "exact_shape s = Some g \<Longrightarrow> hash_search s = Some g"
proof (cases "length s = 12 \<and> list_all is_hex s")
  case True
  assume "exact_shape s = Some g"
  with True have "g = s" by (simp add: exact_shape_def)
  with True show ?thesis by (simp add: hash_search_hex12)
next
  case False
  assume "exact_shape s = Some g"
  with False have "takeWhile is_digit s \<noteq> []" "dropWhile is_digit s \<noteq> []"
    "hd (dropWhile is_digit s) = CHR ''_''" "length (tl (dropWhile is_digit s)) = 12"
    "list_all is_hex (tl (dropWhile is_digit s))" "g = tl (dropWhile is_digit s)"
    by (auto simp: exact_shape_def Let_def split: if_splits)
  then show ?thesis
    by (simp add: hash_search_def prefixed_def hex12_def)
qed

lemma rglob_iff: "p \<in> set (rglob t) \<longleftrightarrow> p \<noteq> [] \<and> p \<in> fst ` set t"
  by (auto simp: rglob_def)

lemma is_file_rglob: "is_file t p \<Longrightarrow> p \<in> set (rglob t)"
  by (auto simp: rglob_iff is_file_key is_file_iff lookup_def split: if_splits)

lemma set_map_filter: "set (List.map_filter f xs) = {y. \<exists>x\<in>set xs. f x = Some y}"
  by (induction xs) (auto simp: List.map_filter_def)

lemma existing_hashes_iff:
  "fp \<in> existing_hashes t
     \<longleftrightarrow> (\<exists>f g. is_file t f \<and> hash_search (stem f) = Some g \<and> fp = lower g)"
proof
  assume "fp \<in> existing_hashes t"
  then obtain f where "f \<in> set (rglob t)"
    and "(if is_file t f then map_option lower (hash_search (stem f)) else None) = Some fp"
    unfolding existing_hashes_def set_map_filter by blast
  then show "\<exists>f g. is_file t f \<and> hash_search (stem f) = Some g \<and> fp = lower g"
    by (cases "is_file t f") auto
next
  assume "\<exists>f g. is_file t f \<and> hash_search (stem f) = Some g \<and> fp = lower g"
  then obtain f g where f: "is_file t f" "hash_search (stem f) = Some g" "fp = lower g"
    by blast
  then have "f \<in> set (rglob t)" by (simp add: is_file_rglob)
  moreover from f
  have "(if is_file t f then map_option lower (hash_search (stem f)) else None) = Some fp"
    by simp
  ultimately show "fp \<in> existing_hashes t"
    unfolding existing_hashes_def set_map_filter by blast
qed

lemmas search_eval = hash_search_def prefixed_def hex12_def is_hex_def is_digit_def exact_shape_def


text \<open>
  C3 (amended). The index holds the lower-cased first match of the pattern in the stem of
  each regular file of the destination. A stem of the shape the specification describes
  contributes its twelve hex characters. But the pattern is searched for, not matched
  against the whole stem: every stem that has twelve hex characters in a row anywhere
  contributes such a run (one in the middle of the stem, or the start of a longer run of
  hex characters), and a stem contributes nothing only when it has no such run at all.
\<close>

theorem index_amended:
  "(fp \<in> existing_hashes t
      \<longleftrightarrow> (\<exists>f g. is_file t f \<and> hash_search (stem f) = Some g \<and> fp = lower g))
   \<and> (\<forall>s g. exact_shape s = Some g \<longrightarrow> hash_search s = Some g)
   \<and> (\<forall>s. hash_search s = None
          \<longleftrightarrow> \<not> (\<exists>a g b. s = a @ g @ b \<and> length g = 12 \<and> list_all is_hex g))
   \<and> (\<forall>s g. hash_search s = Some g
          \<longrightarrow> length g = 12 \<and> list_all is_hex g \<and> (\<exists>a b. s = a @ g @ b))"
  using existing_hashes_iff exact_shape_search hash_search_None hash_search_Some by blast


theorem index_amended_witness:
  "hash_search ''123_00AA11bb22cc'' = Some ''00AA11bb22cc''
   \<and> length ''0123456789ab'' = 12 \<and> list_all is_hex ''0123456789ab''"
proof -
  have e: "exact_shape ''123_00AA11bb22cc'' = Some ''00AA11bb22cc''"
    by (simp add: search_eval)
  have s: "hash_search ''IMG_0123456789abcdef'' = Some ''0123456789ab''"
    by (simp add: search_eval)
  from index_amended [THEN conjunct2, THEN conjunct1, rule_format, OF e]
    index_amended [THEN conjunct2, THEN conjunct2, THEN conjunct2, rule_format, OF s]
  show ?thesis by simp
qed


text \<open>
  The claim as the specification states it fails: a stem that is not of the exact shape,
  with sixteen hex characters after \<open>IMG_\<close>, puts the first twelve of them in the index.
\<close>

theorem index_counterexample:
  "exact_shape (stem [''IMG_0123456789abcdef.jpg'']) = None
   \<and> existing_hashes [([''IMG_0123456789abcdef.jpg''], File [])] = {''0123456789ab''}"
  by (simp add: search_eval existing_hashes_def List.map_filter_def path_eval fs_eval)

section \<open>Destination names\<close>

lemma hex_digit_lower: "is_lower_hex (hex_digit n)"
  unfolding hex_digit_def is_lower_hex_def by (rule nth_mem) (simp add: nat_less_iff)

lemma hex32_props: "length (hex32 w) = 8 \<and> list_all is_lower_hex (hex32 w)"
  by (simp add: hex32_def hex_digit_lower)

lemma hex_state_props: "length (hex_state st) = 40 \<and> list_all is_lower_hex (hex_state st)"
  by (cases st rule: prod_cases5) (simp add: hex32_props)

lemma sha1_hex_props: "length (sha1_hex m) = 40 \<and> list_all is_lower_hex (sha1_hex m)"
  by (simp add: sha1_hex_def hex_state_props)

lemma sha1_file_hex:
  assumes "sha1_file t p bs n = Inr d"
  shows "length d = 40 \<and> list_all is_lower_hex d"
proof -
  from assms obtain h where "d = sha1_hex h"
    by (auto simp: sha1_file_def hexdigest_def split: option.splits node.splits sum.splits)
  then show ?thesis by (simp add: sha1_hex_props)
qed

lemma files_iff: "f \<in> set (files t) \<longleftrightarrow> f \<in> set (rglob t) \<and> lower (suffix f) \<in> {''.jpg'', ''.jpeg''}"
  by (auto simp: files_def)

lemma copy_image_Inr:
  assumes "copy_image im s = (Inr dst, s')"
  obtains t t' where "path im \<noteq> []"
    and "dst = butlast (path im) @ [short_sha im @ extension im]"
    and "mkdir_parents (dest s) (butlast (path im)) = Inr t"
    and "copy2 (source s) (path im) t dst = Inr t'"
    and "s' = s\<lparr>dest := t'\<rparr>"
  using assms by (auto simp: copy_image_def split: if_splits sum.splits)






section \<open>The candidates\<close>

text \<open>
  C4. The list of candidates is \<open>rglob\<close> filtered by the suffix alone. A directory named
  \<open>photos.jpg\<close> is no regular file, yet it is dispatched: the digest step fails on it and
  the run counts it as failed. (The scan of the destination, in the same function, does
  test \<open>is_file\<close>.)
\<close>

theorem files_dispatches_directory:
  "files [([''photos.jpg''], Dir)] = [[''photos.jpg'']]
   \<and> \<not> is_file [([''photos.jpg''], Dir)] [''photos.jpg'']
   \<and> report (run px (Sanitizer [([''photos.jpg''], Dir)] [] 1 PyNone))
       = \<lparr>ignored = 0, copied = 0, failed = 1\<rparr>"
  by (simp add: run_eval path_eval fs_eval sha1_file_def)

section \<open>Duplicates\<close>

lemma known_frame:
  "source s' = source s \<Longrightarrow> hash_sample_size s' = hash_sample_size s
     \<Longrightarrow> known s' ex f = known s ex f"
  by (simp add: known_def)

lemma process_file_ignored:
  "ignored (report (process_file px f ex s))
     = ignored (report s) + (if known s ex f then 1 else 0)"
proof (cases rule: process_file_cases [of s f px ex])
  case (digest_failed e)
  then show ?thesis by (simp add: known_def)
next
  case (ignored d)
  then show ?thesis by (simp add: known_def)
next
  case (copy_failed d e s')
  with copy_image_frame [OF copy_failed(3)] show ?thesis by (simp add: known_def)
next
  case (copied d dst s')
  with copy_image_frame [OF copied(3)] show ?thesis
    by (simp add: known_def clean_exif_report split: sum.splits)
qed

lemma known_process_file: "known (process_file px f ex s) ex' g = known s ex' g"
  by (simp add: known_def)

lemma process_all_ignored:
  "ignored (report (process_all px ex fs s))
     = ignored (report s) + int (length (filter (known s ex) fs))"
proof (induction fs arbitrary: s)
  case Nil
  then show ?case by simp
next
  case (Cons f fs)
  have "ignored (report (process_all px ex (f # fs) s))
          = ignored (report (process_file px f ex s))
            + int (length (filter (known (process_file px f ex s) ex) fs))"
    unfolding process_all_Cons by (rule Cons)
  also have "filter (known (process_file px f ex s) ex) fs = filter (known s ex) fs"
    by (rule filter_cong) (simp_all add: known_process_file)
  also have "ignored (report (process_file px f ex s))
               = ignored (report s) + (if known s ex f then 1 else 0)"
    by (rule process_file_ignored)
  finally show ?case by simp
qed

text \<open>
  C5 (amended). A file is a duplicate only of what the destination held before the run:
  the index is built once and never updated. A candidate is ignored exactly when its
  short digest is in that index, so \<open>ignored\<close> is the number \<open>K\<close> of such candidates,
  whatever else the source holds. Each of the \<open>U\<close> other candidates goes on to the copy
  step and is counted as copied or as failed: \<open>copied \<le> U \<le> copied + failed\<close>. So two
  source files with equal content that the index does not know are both copied when
  nothing fails (the second over the first), and neither is ignored.
\<close>

theorem dedup_amended:
  fixes px :: piexif and src dst :: fs and w :: int and n :: pyval
  defines "self \<equiv> Sanitizer src dst w n"
  defines "r \<equiv> report (run px self)"
  defines "K \<equiv> int (length (filter (known self (existing_hashes dst)) (files src)))"
  defines "U \<equiv> int (length (filter (\<lambda>f. \<not> known self (existing_hashes dst) f) (files src)))"
  shows "ignored r = K \<and> copied r \<le> U \<and> U \<le> copied r + failed r
       \<and> K + U = int (length (files src))"
proof -
  have r: "r = report (process_all px (existing_hashes dst) (files src) self)"
    and z: "report self = \<lparr>ignored = 0, copied = 0, failed = 0\<rparr>"
    by (simp_all add: r_def run_def self_def Sanitizer_def Report_def)
  have i: "ignored r = K"
    unfolding r K_def
    using process_all_ignored [of px "existing_hashes dst" "files src" self]
    by (simp add: z)
  have b: "int (length (files src)) \<le> ignored r + copied r + failed r"
    "ignored r + copied r \<le> int (length (files src))"
    unfolding r using process_all_counts [of px "existing_hashes dst" "files src" self]
    by (simp_all add: z)
  have "length (filter (known self (existing_hashes dst)) (files src))
          + length (filter (\<lambda>f. \<not> known self (existing_hashes dst) f) (files src))
        = length (files src)"
    by (rule sum_length_filter_compl)
  then have "K + U = int (length (files src))"
    unfolding K_def U_def by (simp only: of_nat_add [symmetric])
  with i b show ?thesis by linarith
qed

text \<open>
  The claim as the specification states it fails: two empty files (equal content, equal
  digest), an empty destination, one worker; both are copied and none is ignored. (Both
  are counted as failed too, since the metadata of an empty file cannot be read.)
\<close>

theorem dedup_counterexample:
  "sha1_file [([''a.jpg''], File []), ([''b.jpg''], File [])] [''a.jpg''] 65536 PyNone
     = sha1_file [([''a.jpg''], File []), ([''b.jpg''], File [])] [''b.jpg''] 65536 PyNone
   \<and> existing_hashes [] = {}
   \<and> report (run piexif_refusing
               (Sanitizer [([''a.jpg''], File []), ([''b.jpg''], File [])] [] 1 PyNone))
       = \<lparr>ignored = 0, copied = 2, failed = 2\<rparr>"
  by (simp add: run_eval path_eval fs_eval sha1_file_none sha1_hex_empty piexif_refusing_def
      Let_def)

section \<open>A second run\<close>

lemma is_file_mkdir:
  assumes "mkdir_parents t p = Inr t'" and "is_file t q"
  shows "is_file t' q"
  using assms(2) by (auto simp: is_file_iff lookup_mkdir [OF assms(1)])

lemma is_file_put: "is_file t q \<Longrightarrow> is_file ((p, File d) # t) q"
  by (auto simp: is_file_iff lookup_def)

lemma is_file_copy2:
  assumes "copy2 s src t dst = Inr t'" and "is_file t q"
  shows "is_file t' q"
  using assms(1)
proof (rule copy2_Inr)
  fix data
  assume "t' = ((if is_dir t dst then dst @ [name src] else dst), File data) # t"
  with assms(2) show ?thesis by (simp add: is_file_put)
qed

lemma is_file_clean_exif_try:
  assumes "clean_exif_try px p t = (r, t')" and "is_file t q"
  shows "is_file t' q"
  using clean_exif_try_cases [OF assms(1)] assms(2) by (auto simp: is_file_put)

lemma is_file_clean_exif: "is_file (dest s) q \<Longrightarrow> is_file (dest (clean_exif px p s)) q"
  using is_file_clean_exif_try [of px p "dest s"]
  by (cases "clean_exif_try px p (dest s)") (simp add: dest_clean_exif)

lemma is_file_copy_image:
  assumes "copy_image im s = (r, s')" and "is_file (dest s) q"
  shows "is_file (dest s') q"
proof (cases "path im = []")
  case True
  with assms show ?thesis by (simp add: copy_image_def)
next
  case ne: False
  show ?thesis
  proof (cases "mkdir_parents (dest s) (butlast (path im))")
    case (Inl e)
    with assms ne show ?thesis by (simp add: copy_image_def)
  next
    case mk: (Inr t)
    then have ft: "is_file t q" using assms(2) by (rule is_file_mkdir)
    show ?thesis
    proof (cases "copy2 (source s) (path im) t
                    (butlast (path im) @ [short_sha im @ extension im])")
      case (Inl e)
      with assms(1) ne mk have "s' = s\<lparr>dest := t\<rparr>" by (simp add: copy_image_def)
      with ft show ?thesis by simp
    next
      case (Inr t')
      then have "is_file t' q" using ft by (rule is_file_copy2)
      moreover from assms(1) ne mk Inr have "s' = s\<lparr>dest := t'\<rparr>"
        by (simp add: copy_image_def)
      ultimately show ?thesis by simp
    qed
  qed
qed

lemma is_file_process_file:
  assumes "is_file (dest s) q"
  shows "is_file (dest (process_file px f ex s)) q"
proof (cases rule: process_file_cases [of s f px ex])
  case (digest_failed e)
  with assms show ?thesis by simp
next
  case (ignored d)
  with assms show ?thesis by simp
next
  case (copy_failed d e s')
  with is_file_copy_image [OF copy_failed(3) assms] show ?thesis by simp
next
  case (copied d dst s')
  with is_file_copy_image [OF copied(3) assms] show ?thesis
    by (simp add: is_file_clean_exif)
qed

lemma is_file_process_all:
  "is_file (dest s) q \<Longrightarrow> is_file (dest (process_all px ex fs s)) q"
  by (induction fs arbitrary: s) (simp_all add: is_file_process_file)

lemma clean_exif_lands:
  assumes "fst (clean_exif_try px p t) = Inr u"
  shows "is_file (snd (clean_exif_try px p t)) p"
proof -
  obtain r t' where c: "clean_exif_try px p t = (r, t')"
    by (cases "clean_exif_try px p t")
  from clean_exif_try_cases [OF c] show ?thesis
  proof
    assume "t' = t"
    with c assms have "clean_exif_try px p t = (Inr u, t)" by simp
    then obtain d where "lookup t p = Some (File d)"
      by (auto simp: clean_exif_try_def split: option.splits node.splits sum.splits)
    with c \<open>t' = t\<close> show ?thesis by (simp add: is_file_iff)
  next
    assume "\<exists>d d'. lookup t p = Some (File d) \<and> t' = (p, File d') # t \<and> r = Inr ()"
    then obtain d d' where "lookup t p = Some (File d)" "t' = (p, File d') # t" by blast
    then have "p \<noteq> []" by (auto simp: lookup_def)
    with c \<open>t' = (p, File d') # t\<close> show ?thesis by (simp add: is_file_iff lookup_def)
  qed
qed

lemma all_copied:
  assumes "copied (report (process_all px ex fs s)) = copied (report s) + int (length fs)"
    and "failed (report (process_all px ex fs s)) = failed (report s)"
  shows "\<forall>f\<in>set fs. \<exists>d. sha1_file (source s) f 65536 (hash_sample_size s) = Inr d
           \<and> is_file (dest (process_all px ex fs s)) (butlast f @ [take 12 d @ lower (suffix f)])"
  using assms
proof (induction fs arbitrary: s)
  case Nil
  then show ?case by simp
next
  case (Cons f fs)
  let ?s1 = "process_file px f ex s"
  let ?s2 = "process_all px ex fs ?s1"
  from process_file_step [of px f ex s]
  have st: "copied (report ?s1) \<le> copied (report s) + 1" "failed (report s) \<le> failed (report ?s1)"
    by auto
  from process_all_counts [of px ex fs ?s1]
  have rest: "copied (report ?s2) \<le> copied (report ?s1) + int (length fs)"
    "failed (report ?s1) \<le> failed (report ?s2)"
    by linarith+
  from Cons.prems have fin: "copied (report ?s2) = copied (report s) + int (length (f # fs))"
    "failed (report ?s2) = failed (report s)"
    by simp_all
  from st rest fin have c1: "copied (report ?s1) = copied (report s) + 1"
    and f1: "failed (report ?s1) = failed (report s)"
    and c2: "copied (report ?s2) = copied (report ?s1) + int (length fs)"
    and f2: "failed (report ?s2) = failed (report ?s1)"
    by simp_all
  have tail: "\<forall>g\<in>set fs. \<exists>d. sha1_file (source s) g 65536 (hash_sample_size s) = Inr d
           \<and> is_file (dest ?s2) (butlast g @ [take 12 d @ lower (suffix g)])"
    using Cons.IH [OF c2 f2] by simp
  have head: "\<exists>d. sha1_file (source s) f 65536 (hash_sample_size s) = Inr d
           \<and> is_file (dest ?s2) (butlast f @ [take 12 d @ lower (suffix f)])"
  proof (cases rule: process_file_cases [of s f px ex])
    case (digest_failed e)
    with f1 show ?thesis by simp
  next
    case (ignored d)
    with c1 show ?thesis by simp
  next
    case (copy_failed d e s')
    with copy_image_frame [OF copy_failed(3)] f1 show ?thesis by simp
  next
    case (copied d dst s')
    from copy_image_frame [OF copied(3)] have rs: "report s' = report s" by simp
    from copied(3) have dst: "dst = butlast f @ [take 12 d @ lower (suffix f)]"
      by (rule copy_image_Inr) (simp add: short_sha_def extension_def)
    have "\<exists>u. fst (clean_exif_try px dst (dest s')) = Inr u"
    proof (cases "fst (clean_exif_try px dst (dest s'))")
      case (Inl e)
      with copied(4) rs f1 show ?thesis by (simp add: clean_exif_report)
    next
      case (Inr u)
      then show ?thesis by blast
    qed
    then have "is_file (dest (clean_exif px dst s')) dst"
      using clean_exif_lands by (auto simp: dest_clean_exif)
    with copied(4) have "is_file (dest ?s1) dst" by simp
    then have "is_file (dest ?s2) dst" by (rule is_file_process_all)
    with copied(1) dst show ?thesis by simp
  qed
  from head tail show ?case by simp
qed

lemma lower_hex_is_hex: "is_lower_hex c \<Longrightarrow> is_hex c"
  by (auto simp: is_lower_hex_def is_hex_def)

lemma lower_hex_not_upper: "is_lower_hex c \<Longrightarrow> c \<notin> set upper_chars"
  unfolding is_lower_hex_def upper_chars_def by (simp; elim disjE; simp)

lemma lower_char_lower_hex:
  assumes "is_lower_hex c"
  shows "lower_char c = c"
proof -
  have "length upper_chars = length lower_chars"
    by (simp add: upper_chars_def lower_chars_def)
  then have "map_of (zip upper_chars lower_chars) c = None"
    using lower_hex_not_upper [OF assms] by (simp add: map_of_zip_is_None)
  then show ?thesis by (simp add: lower_char_def)
qed

lemma lower_lower_hex: "list_all is_lower_hex h \<Longrightarrow> lower h = h"
  by (simp add: lower_def list_all_iff map_idI lower_char_lower_hex)

lemma rfind_last:
  assumes "c \<notin> set e"
  shows "rfind (h @ c # e) c = int (length h)"
proof -
  from assms have "\<forall>x\<in>set (rev e). x \<noteq> c" by auto
  then have "takeWhile (\<lambda>x. x \<noteq> c) (rev e) = rev e"
    by (simp only: takeWhile_eq_all_conv)
  then have "takeWhile (\<lambda>x. x \<noteq> c) (rev (h @ c # e)) = rev e"
    by (simp add: takeWhile_tail)
  then show ?thesis by (simp add: rfind_def)
qed

lemma stem_ext:
  assumes "length h = 12" and "CHR ''.'' \<notin> set e'" and "e' \<noteq> []"
  shows "stem (p @ [h @ CHR ''.'' # e']) = h"
proof -
  from assms(2) have "rfind (h @ CHR ''.'' # e') CHR ''.'' = int (length h)"
    by (rule rfind_last)
  moreover from assms(3) have "0 < length e'" by simp
  ultimately show ?thesis
    using assms(1) by (simp add: stem_def name_def)
qed

lemma stem_leaf:
  assumes "length h = 12" and "e \<in> {''.jpg'', ''.jpeg''}"
  shows "stem (p @ [h @ e]) = h"
proof -
  from assms(2) have "e = CHR ''.'' # ''jpg'' \<or> e = CHR ''.'' # ''jpeg''" by simp
  then show ?thesis
  proof
    assume "e = CHR ''.'' # ''jpg''"
    then show ?thesis using stem_ext [OF assms(1), of "''jpg''" p] by simp
  next
    assume "e = CHR ''.'' # ''jpeg''"
    then show ?thesis using stem_ext [OF assms(1), of "''jpeg''" p] by simp
  qed
qed

lemma index_has:
  assumes "is_file t (p @ [h @ e])" and "length h = 12" and "list_all is_lower_hex h"
    and "e \<in> {''.jpg'', ''.jpeg''}"
  shows "h \<in> existing_hashes t"
proof -
  have "list_all is_hex h"
    using assms(3) by (auto simp: list_all_iff lower_hex_is_hex)
  with assms(2) have "hash_search h = Some h" by (rule hash_search_hex12)
  then have "hash_search (stem (p @ [h @ e])) = Some h"
    by (simp add: stem_leaf [OF assms(2,4)])
  moreover have "h = lower h" using assms(3) by (simp add: lower_lower_hex)
  ultimately show ?thesis
    unfolding existing_hashes_iff using assms(1) by blast
qed

lemma process_file_known: "known s ex f \<Longrightarrow> process_file px f ex s = inc_ignored s"
  by (auto simp: known_def process_file_def process_file_try_def short_sha_def
      split: sum.splits)

lemma process_all_known:
  "\<forall>f\<in>set fs. known s ex f \<Longrightarrow>
     report (process_all px ex fs s)
       = (report s)\<lparr>ignored := ignored (report s) + int (length fs)\<rparr>"
proof (induction fs arbitrary: s)
  case Nil
  then show ?case by simp
next
  case (Cons f fs)
  then have k: "known s ex f" and ks: "\<forall>g\<in>set fs. known (inc_ignored s) ex g"
    by (simp_all add: known_def)
  from Cons.IH [OF ks] k show ?case
    by (simp add: process_file_known)
qed


text \<open>
  C7. A second run with the same source, the destination the first run left and the same
  sample limit copies nothing and ignores every candidate, when in the first (sequential)
  run every candidate was copied and none failed: each copy left a regular file named
  by the short digest, the index of the second run holds that digest, and the digests of
  the source are what they were.
\<close>

theorem second_run_idempotent:
  fixes px :: piexif and src dst :: fs and w :: int and n :: pyval
  defines "first \<equiv> run px (Sanitizer src dst w n)"
  assumes "copied (report first) = int (length (files src))"
    and "failed (report first) = 0"
  shows "report (run px (Sanitizer src (dest first) w n))
           = \<lparr>ignored = int (length (files src)), copied = 0, failed = 0\<rparr>"
proof -
  let ?S = "Sanitizer src dst w n"
  let ?T = "Sanitizer src (dest first) w n"
  have S: "source ?S = src" "hash_sample_size ?S = n" "dest ?S = dst"
    "report ?S = \<lparr>ignored = 0, copied = 0, failed = 0\<rparr>"
    by (simp_all add: Sanitizer_def Report_def)
  have T: "source ?T = src" "hash_sample_size ?T = n" "dest ?T = dest first"
    "report ?T = \<lparr>ignored = 0, copied = 0, failed = 0\<rparr>"
    by (simp_all add: Sanitizer_def Report_def)
  have first: "first = process_all px (existing_hashes dst) (files src) ?S"
    by (simp add: first_def run_def S)
  have landed: "\<forall>f\<in>set (files src). \<exists>d. sha1_file src f 65536 n = Inr d
           \<and> is_file (dest first) (butlast f @ [take 12 d @ lower (suffix f)])"
    using all_copied [of px "existing_hashes dst" "files src" ?S] assms(2,3)
    unfolding first by (simp add: S)
  have "known ?T (existing_hashes (dest first)) f" if f: "f \<in> set (files src)" for f
  proof -
    from landed f obtain d where d: "sha1_file src f 65536 n = Inr d"
      and l: "is_file (dest first) (butlast f @ [take 12 d @ lower (suffix f)])"
      by blast
    from d have "length d = 40" "list_all is_lower_hex d"
      using sha1_file_hex by blast+
    then have "length (take 12 d) = 12" "list_all is_lower_hex (take 12 d)"
      by (auto simp: list_all_iff dest: in_set_takeD)
    moreover from f have "lower (suffix f) \<in> {''.jpg'', ''.jpeg''}"
      by (simp add: files_iff)
    ultimately have "take 12 d \<in> existing_hashes (dest first)"
      using l by (intro index_has)
    with d show ?thesis by (simp add: known_def T)
  qed
  then have "report (process_all px (existing_hashes (dest first)) (files src) ?T)
       = (report ?T)\<lparr>ignored := ignored (report ?T) + int (length (files src))\<rparr>"
    by (intro process_all_known) simp
  then show ?thesis by (simp add: run_def T)
qed


theorem second_run_idempotent_witness:
  "report (run piexif_plain
             (Sanitizer [([''sub''], Dir), ([''sub'', ''a.JPG''], File [0xFF, 0xD8, 0xFF, 0xD9])]
                [([''sub'', ''d7c0d8f45ae7.jpg''], File [0xFF, 0xD8, 0xFF, 0xD9]),
                 ([''sub'', ''d7c0d8f45ae7.jpg''], File [0xFF, 0xD8, 0xFF, 0xD9]),
                 ([''sub''], Dir)] 1 PyNone))
     = \<lparr>ignored = 1, copied = 0, failed = 0\<rparr>"
proof -
  let ?src = "[([''sub''], Dir), ([''sub'', ''a.JPG''], File [0xFF, 0xD8, 0xFF, 0xD9])]"
  have r: "run piexif_plain (Sanitizer ?src [] 1 PyNone)
             = \<lparr>source = ?src,
                dest = [([''sub'', ''d7c0d8f45ae7.jpg''], File [0xFF, 0xD8, 0xFF, 0xD9]),
                        ([''sub'', ''d7c0d8f45ae7.jpg''], File [0xFF, 0xD8, 0xFF, 0xD9]),
                        ([''sub''], Dir)],
                worker = 1, report = \<lparr>ignored = 0, copied = 1, failed = 0\<rparr>,
                hash_sample_size = PyNone\<rparr>"
    by (simp add: run_eval path_eval fs_eval sha1_file_none sha1_hex_jpeg piexif_plain_def
        new_exif_def Let_def)
  have l: "files ?src = [[''sub'', ''a.JPG'']]"
    by (simp add: files_def path_eval fs_eval)
  from second_run_idempotent [of piexif_plain ?src "[]" 1 PyNone]
  show ?thesis unfolding r l by simp
qed

end
